theory Spec2Isabelle
  imports Main "HOL-Library.Word" "HOL-Library.AList"
begin

section \<open>Shared data model\<close>

text \<open>
  Go's \<^verbatim>\<open>int\<close> is a 64-bit two's complement integer on the supported platforms:
  addition wraps around.  Strings are byte sequences.
\<close>

type_synonym go_int = "64 word"

text \<open>
  The finding records of \<^verbatim>\<open>pkg/types\<close> and \<^verbatim>\<open>pkg/fanal/types\<close>.  Their
  declarations live outside the files at hand; the fields below are the ones the
  functions under study read, plus an identifier that tells two findings apart.
\<close>

record DetectedVulnerability =
  VulnerabilityID :: string
  PkgID :: string
  vuln_Severity :: string

record DetectedMisconfiguration =
  misconf_ID :: string
  Status :: string
  misconf_Severity :: string

record SecretFinding =
  RuleID :: string
  secret_Severity :: string

record Package =
  ID :: string
  DependsOn :: "string list"

record Result =
  Target :: string
  Class :: string
  Type :: string
  Packages :: "Package list"
  result_Vulnerabilities :: "DetectedVulnerability list"
  result_Misconfigurations :: "DetectedMisconfiguration list"
  Secrets :: "SecretFinding list"

text \<open>\<^verbatim>\<open>types.MisconfStatus\<close>: the three status strings of a policy check.\<close>

definition StatusPassed :: string where "StatusPassed = ''PASS''"
definition StatusFailure :: string where "StatusFailure = ''FAIL''"
definition StatusException :: string where "StatusException = ''EXCEPTION''"


text \<open>
  \<^verbatim>\<open>types.Results\<close> is a slice of results.  The records that hold one leave its
  representation \<open>'rs\<close> open: the list of its elements where the slice is built by the
  function at hand and shared with nothing (\<^verbatim>\<open>createResource\<close>), a slice header
  on a heap where a function appends to slices it was given (\<^verbatim>\<open>consolidate\<close>).
\<close>

record 'rs types_Report =
  report_Results :: 'rs

section \<open>Slices\<close>

text \<open>
  A Go slice is a window on a backing array: the array, the offset of the first element,
  the number of elements and the capacity, counted from the offset.  The heap is the
  list of the arrays allocated so far, an array being addressed by its position.  The
  nil slice has length and capacity 0 and its array is never read.
\<close>

record slice =
  array :: nat
  off :: nat
  len :: nat
  cap :: nat

type_synonym heap = "Result list list"

definition nil_slice :: slice where
  "nil_slice = \<lparr>array = 0, off = 0, len = 0, cap = 0\<rparr>"

definition elems :: "heap \<Rightarrow> slice \<Rightarrow> Result list" where
  "elems h s = take (len s) (drop (off s) (h ! array s))"

text \<open>The zero value of \<^verbatim>\<open>types.Result\<close>, which fills the spare cells of a new array.\<close>

definition zero_Result :: Result where
  "zero_Result = \<lparr>Target = [], Class = [], Type = [], Packages = [],
     result_Vulnerabilities = [], result_Misconfigurations = [], Secrets = []\<rparr>"

definition write_at :: "Result list \<Rightarrow> nat \<Rightarrow> Result list \<Rightarrow> Result list" where
  "write_at a i xs = take i a @ xs @ drop (i + length xs) a"

text \<open>
  \<^verbatim>\<open>append(s, xs...)\<close>.  When the capacity of \<open>s\<close> suffices, the elements are written
  into the backing array of \<open>s\<close>, behind its last element, and the result is a longer
  window on the same array: every slice that sees these cells sees the new elements.
  Otherwise a new array receives the elements of \<open>s\<close> and then \<open>xs\<close>.  Its capacity is
  chosen by the runtime (\<^verbatim>\<open>growslice\<close>), here a parameter applied to the old capacity
  and the number of elements needed, and is at least that number.
\<close>

definition append_slice ::
  "(nat \<Rightarrow> nat \<Rightarrow> nat) \<Rightarrow> heap \<Rightarrow> slice \<Rightarrow> Result list \<Rightarrow> slice \<times> heap" where
  "append_slice growslice h s xs =
     (let n = len s + length xs in
      if n \<le> cap s
      then (s\<lparr>len := n\<rparr>,
            if xs = [] then h
            else h[array s := write_at (h ! array s) (off s + len s) xs])
      else
        (let c = max n (growslice (cap s) n)
         in (\<lparr>array = length h, off = 0, len = n, cap = c\<rparr>,
             h @ [elems h s @ xs @ replicate (c - n) zero_Result])))"

section \<open>The kubernetes report (package k8s)\<close>

record 'rs Resource =
  Namespace :: string
  Kind :: string
  Name :: string
  Results :: 'rs
  Error :: string
  Report :: "'rs types_Report"

record 'rs k8s_Report =
  SchemaVersion :: go_int
  ClusterName :: string
  Vulnerabilities :: "'rs Resource list"
  Misconfigurations :: "'rs Resource list"

record 'rs ConsolidatedReport =
  cons_SchemaVersion :: go_int
  cons_ClusterName :: string
  Findings :: "'rs Resource list"


text \<open>
  \<^verbatim>\<open>strings.ToLower\<close> of the Go library.  On a string of ASCII bytes the letters
  \<^verbatim>\<open>A\<close> to \<^verbatim>\<open>Z\<close> move to \<^verbatim>\<open>a\<close> to \<^verbatim>\<open>z\<close> and every other byte stays.  On any
  other string it maps \<^verbatim>\<open>unicode.ToLower\<close> over the runes of the string, invalid
  UTF-8 becoming the replacement character; that mapping of whole strings is a parameter
  \<open>unicodeLower\<close> of the model.
\<close>

definition toLower_byte :: "char \<Rightarrow> char" where
  "toLower_byte c =
     (if (65::int) \<le> of_char c \<and> of_char c \<le> (90::int)
      then char_of (of_char c + (32::int)) else c)"

definition isASCII :: "string \<Rightarrow> bool" where
  "isASCII s = list_all (\<lambda>c. of_char c < (128::int)) s"

definition ToLower :: "(string \<Rightarrow> string) \<Rightarrow> string \<Rightarrow> string" where
  "ToLower unicodeLower s = (if isASCII s then map toLower_byte s else unicodeLower s)"

text \<open>\<^verbatim>\<open>fmt.Sprintf("%s/%s/%s", r.Namespace, r.Kind, r.Name)\<close>, lower-cased.\<close>

definition fullname :: "(string \<Rightarrow> string) \<Rightarrow> 'rs Resource \<Rightarrow> string" where
  "fullname unicodeLower r =
     ToLower unicodeLower (Namespace r @ ''/'' @ Kind r @ ''/'' @ Name r)"

text \<open>
  \<^verbatim>\<open>Results.Failed\<close> belongs to \<^verbatim>\<open>pkg/types\<close>; it is a parameter \<open>rf\<close> of the model.
  Each loop of \<^verbatim>\<open>Report.Failed\<close> returns at the first resource whose results fail.
\<close>

fun any_Failed :: "('rs \<Rightarrow> bool) \<Rightarrow> 'rs Resource list \<Rightarrow> bool" where
  "any_Failed rf [] = False"
| "any_Failed rf (r # rs) = (if rf (Results r) then True else any_Failed rf rs)"

definition Failed :: "('rs \<Rightarrow> bool) \<Rightarrow> 'rs k8s_Report \<Rightarrow> bool" where
  "Failed rf r =
     (if any_Failed rf (Vulnerabilities r) then True
      else if any_Failed rf (Misconfigurations r) then True
      else False)"

text \<open>
  The index of \<^verbatim>\<open>consolidate\<close> is a Go map from key to resource.  It is kept as an
  association list with one pair per key (\<open>AList.update\<close> overwrites in place), so that
  \<^verbatim>\<open>maps.Values\<close> can be computed; Go leaves the order of the values open, hence the
  statements about \<open>Findings\<close> below never depend on it.  The resources hold slice
  headers, and the loop over the vulnerabilities threads the heap:
  \<^verbatim>\<open>append(r.Results, v.Results...)\<close> reads the elements of \<^verbatim>\<open>v.Results\<close> and may
  write into the array of \<^verbatim>\<open>r.Results\<close>.  The merged resource has no
  \<^verbatim>\<open>Report\<close>: the field keeps its zero value.
\<close>

type_synonym index_t = "(string \<times> slice Resource) list"

fun index_misconfigurations ::
  "(string \<Rightarrow> string) \<Rightarrow> slice Resource list \<Rightarrow> index_t \<Rightarrow> index_t" where
  "index_misconfigurations unicodeLower [] index = index"
| "index_misconfigurations unicodeLower (m # ms) index =
     index_misconfigurations unicodeLower ms (AList.update (fullname unicodeLower m) m index)"

fun merge_vulnerability ::
  "(nat \<Rightarrow> nat \<Rightarrow> nat) \<Rightarrow> (string \<Rightarrow> string) \<Rightarrow> slice Resource \<Rightarrow>
   index_t \<times> heap \<Rightarrow> index_t \<times> heap" where
  "merge_vulnerability growslice unicodeLower v (index, h) =
     (let key = fullname unicodeLower v in
      case map_of index key of
        Some r \<Rightarrow>
          (let (results, h') = append_slice growslice h (Results r) (elems h (Results v))
           in (AList.update key
                 \<lparr>Namespace = Namespace r, Kind = Kind r, Name = Name r,
                  Results = results, Error = Error r,
                  Report = \<lparr>report_Results = nil_slice\<rparr>\<rparr> index,
               h'))
      | None \<Rightarrow> (AList.update key v index, h))"

fun merge_vulnerabilities ::
  "(nat \<Rightarrow> nat \<Rightarrow> nat) \<Rightarrow> (string \<Rightarrow> string) \<Rightarrow> slice Resource list \<Rightarrow>
   index_t \<times> heap \<Rightarrow> index_t \<times> heap" where
  "merge_vulnerabilities growslice unicodeLower [] st = st"
| "merge_vulnerabilities growslice unicodeLower (v # vs) st =
     merge_vulnerabilities growslice unicodeLower vs
       (merge_vulnerability growslice unicodeLower v st)"

definition consolidate_index ::
  "(nat \<Rightarrow> nat \<Rightarrow> nat) \<Rightarrow> (string \<Rightarrow> string) \<Rightarrow> heap \<Rightarrow> slice k8s_Report \<Rightarrow>
   index_t \<times> heap" where
  "consolidate_index growslice unicodeLower h r =
     merge_vulnerabilities growslice unicodeLower (Vulnerabilities r)
       (index_misconfigurations unicodeLower (Misconfigurations r) [], h)"

definition maps_Values :: "index_t \<Rightarrow> slice Resource list" where
  "maps_Values index = map snd index"

text \<open>\<^verbatim>\<open>consolidate\<close> on the heap \<open>h\<close>: the consolidated report and the heap it leaves.\<close>

definition consolidate ::
  "(nat \<Rightarrow> nat \<Rightarrow> nat) \<Rightarrow> (string \<Rightarrow> string) \<Rightarrow> heap \<Rightarrow> slice k8s_Report \<Rightarrow>
   slice ConsolidatedReport \<times> heap" where
  "consolidate growslice unicodeLower h r =
     (let (index, h') = consolidate_index growslice unicodeLower h r
      in (\<lparr>cons_SchemaVersion = SchemaVersion r,
           cons_ClusterName = ClusterName r,
           Findings = maps_Values index\<rparr>, h'))"

text \<open>
  \<^verbatim>\<open>createResource\<close>.  The artifact is a pointer; a nil artifact makes the field
  reads panic.  The error is an interface value, \<open>None\<close> for nil, and \<^verbatim>\<open>err.Error()\<close>
  is its message.  The slice \<^verbatim>\<open>results\<close> is made here with the capacity it needs and
  nothing else refers to it, so it is given by its elements; the report is read only.
\<close>

datatype panic = NilPointerDereference

datatype error = Err string | Wrapped string error





section \<open>The table writer (package report)\<close>

text \<open>
  \<^verbatim>\<open>dbTypes.Severity\<close> and \<^verbatim>\<open>dbTypes.SeverityNames\<close> come from the vulnerability
  database package.  The order of the names is the one the comments of
  \<^verbatim>\<open>SeverityColor\<close> give, index by index; \<^verbatim>\<open>sev.String()\<close> is the name at the
  severity's index.
\<close>

datatype Severity =
  SeverityUnknown | SeverityLow | SeverityMedium | SeverityHigh | SeverityCritical

definition SeverityNames :: "string list" where
  "SeverityNames = [''UNKNOWN'', ''LOW'', ''MEDIUM'', ''HIGH'', ''CRITICAL'']"

fun Severity_String :: "Severity \<Rightarrow> string" where
  "Severity_String SeverityUnknown = ''UNKNOWN''"
| "Severity_String SeverityLow = ''LOW''"
| "Severity_String SeverityMedium = ''MEDIUM''"
| "Severity_String SeverityHigh = ''HIGH''"
| "Severity_String SeverityCritical = ''CRITICAL''"

text \<open>
  The writer.  \<open>Output_isTerminal\<close> stands for \<^verbatim>\<open>isOutputToTerminal()\<close>: the output is
  the standard output and a character device.
\<close>

record TableWriter =
  Severities :: "Severity list"
  Output_isTerminal :: bool
  Tree :: bool
  IncludeNonFailures :: bool
  Trace :: bool

text \<open>\<^verbatim>\<open>%d\<close> of a Go \<^verbatim>\<open>int\<close>: the signed value in decimal.\<close>

fun show_nat :: "nat \<Rightarrow> string" where
  "show_nat n =
     (if n < 10 then [''0123456789'' ! n]
      else show_nat (n div 10) @ [''0123456789'' ! (n mod 10)])"

declare show_nat.simps [simp del]

definition Sprint_d :: "go_int \<Rightarrow> string" where
  "Sprint_d i =
     (if sint i < 0 then ''-'' @ show_nat (nat (- sint i)) else show_nat (nat (sint i)))"

text \<open>\<^verbatim>\<open>strings.Join\<close>.\<close>

fun Join :: "string list \<Rightarrow> string \<Rightarrow> string" where
  "Join [] sep = []"
| "Join [s] sep = s"
| "Join (s # t # rest) sep = s @ sep @ Join (t # rest) sep"

text \<open>
  A \<^verbatim>\<open>map[string]int\<close>: reading a missing key gives 0, and \<^verbatim>\<open>m[k]++\<close> stores the
  read value plus one.
\<close>

type_synonym severity_count = "string \<rightharpoonup> go_int"

definition get_count :: "severity_count \<Rightarrow> string \<Rightarrow> go_int" where
  "get_count m k = (case m k of None \<Rightarrow> 0 | Some c \<Rightarrow> c)"

definition incr :: "severity_count \<Rightarrow> string \<Rightarrow> severity_count" where
  "incr m k = m(k \<mapsto> get_count m k + 1)"

fun summary_loop ::
  "string list \<Rightarrow> severity_count \<Rightarrow> string list \<Rightarrow> go_int \<times> string list \<Rightarrow>
   go_int \<times> string list" where
  "summary_loop severities severityCount [] (tot, summaries) = (tot, summaries)"
| "summary_loop severities severityCount (severity # rest) (tot, summaries) =
     (if severity \<notin> set severities
      then summary_loop severities severityCount rest (tot, summaries)
      else
        (let count = get_count severityCount severity;
             r = severity @ '': '' @ Sprint_d count
         in summary_loop severities severityCount rest (tot + count, summaries @ [r])))"

definition summary :: "TableWriter \<Rightarrow> severity_count \<Rightarrow> go_int \<times> string list" where
  "summary tw severityCount =
     (let severities = map Severity_String (Severities tw)
      in summary_loop severities severityCount SeverityNames (0, []))"

fun count_misconfigurations ::
  "DetectedMisconfiguration list \<Rightarrow> severity_count \<Rightarrow> severity_count" where
  "count_misconfigurations [] severityCount = severityCount"
| "count_misconfigurations (misconf # rest) severityCount =
     count_misconfigurations rest
       (if Status misconf = StatusFailure
        then incr severityCount (misconf_Severity misconf) else severityCount)"

fun count_secrets :: "SecretFinding list \<Rightarrow> severity_count \<Rightarrow> severity_count" where
  "count_secrets [] severityCount = severityCount"
| "count_secrets (secret # rest) severityCount =
     count_secrets rest (incr severityCount (secret_Severity secret))"

fun count_vulnerabilities ::
  "DetectedVulnerability list \<Rightarrow> severity_count \<Rightarrow> severity_count" where
  "count_vulnerabilities [] severityCount = severityCount"
| "count_vulnerabilities (v # rest) severityCount =
     count_vulnerabilities rest (incr severityCount (vuln_Severity v))"

definition countSeverities :: "TableWriter \<Rightarrow> Result \<Rightarrow> severity_count" where
  "countSeverities tw result =
     count_vulnerabilities (result_Vulnerabilities result)
       (count_secrets (Secrets result)
         (count_misconfigurations (result_Misconfigurations result) Map.empty))"

text \<open>
  \<^verbatim>\<open>lo.Uniq\<close>: the first occurrence of every element, in order.
\<close>

fun Uniq_loop :: "'a list \<Rightarrow> 'a list \<Rightarrow> 'a list \<Rightarrow> 'a list" where
  "Uniq_loop [] seen result = result"
| "Uniq_loop (item # rest) seen result =
     (if item \<in> set seen then Uniq_loop rest seen result
      else Uniq_loop rest (item # seen) (result @ [item]))"

definition Uniq :: "'a list \<Rightarrow> 'a list" where
  "Uniq collection = Uniq_loop collection [] []"

text \<open>
  \<^verbatim>\<open>reverseDeps\<close>.  The map from a package to its parents is an association list
  with one pair per key, so that its length is \<^verbatim>\<open>len(parents)\<close>.
\<close>

type_synonym parent_map = "(string \<times> string list) list"

fun reverse_DependsOn :: "string \<Rightarrow> string list \<Rightarrow> parent_map \<Rightarrow> parent_map" where
  "reverse_DependsOn libID [] reversed = reversed"
| "reverse_DependsOn libID (dependOn # rest) reversed =
     reverse_DependsOn libID rest
       (case map_of reversed dependOn of
          None \<Rightarrow> AList.update dependOn [libID] reversed
        | Some items \<Rightarrow> AList.update dependOn (items @ [libID]) reversed)"

fun reverse_libs :: "Package list \<Rightarrow> parent_map \<Rightarrow> parent_map" where
  "reverse_libs [] reversed = reversed"
| "reverse_libs (lib # libs) reversed =
     reverse_libs libs (reverse_DependsOn (ID lib) (DependsOn lib) reversed)"

definition reverseDeps :: "Package list \<Rightarrow> parent_map" where
  "reverseDeps libs = map (\<lambda>(k, v). (k, Uniq v)) (reverse_libs libs [])"

text \<open>
  The tree of \<^verbatim>\<open>treeprint\<close>: a node has a label and branches; \<^verbatim>\<open>AddBranch\<close> appends
  a branch.  \<^verbatim>\<open>addParents\<close> calls itself with no record of the packages already on
  the path, so its recursion need not end: the model counts the depth of the calls with
  \<open>fuel\<close>, and \<open>None\<close> says that the fuel did not suffice.  \<open>addParents_range\<close> is the
  loop over the parents: each parent becomes a branch of \<open>topItem\<close>, filled by the
  recursive call.
\<close>

datatype tree = Node string "tree list"

fun AddBranch :: "tree \<Rightarrow> tree \<Rightarrow> tree" where
  "AddBranch (Node v branches) branch = Node v (branches @ [branch])"

fun addParents :: "nat \<Rightarrow> tree \<Rightarrow> string \<Rightarrow> parent_map \<Rightarrow> tree option"
  and addParents_range :: "nat \<Rightarrow> tree \<Rightarrow> string list \<Rightarrow> parent_map \<Rightarrow> tree option" where
  "addParents 0 topItem pkgID parentMap = None"
| "addParents (Suc fuel) topItem pkgID parentMap =
     (case map_of parentMap pkgID of
        None \<Rightarrow> Some topItem
      | Some parents \<Rightarrow> addParents_range fuel topItem parents parentMap)"
| "addParents_range fuel topItem [] parentMap = Some topItem"
| "addParents_range fuel topItem (parent # rest) parentMap =
     (case addParents fuel (Node parent []) parent parentMap of
        None \<Rightarrow> None
      | Some branch \<Rightarrow> addParents_range fuel (AddBranch topItem branch) rest parentMap)"

text \<open>\<^verbatim>\<open>color.HiRedString\<close>: the text between the escape codes of bright red.\<close>

definition HiRedString :: "string \<Rightarrow> string" where
  "HiRedString s = CHR 0x1B # ''[91m'' @ s @ CHR 0x1B # ''[0m''"

fun count_packages ::
  "DetectedVulnerability list \<Rightarrow> (string \<rightharpoonup> severity_count) \<Rightarrow> (string \<rightharpoonup> severity_count)" where
  "count_packages [] pkgSeverityCount = pkgSeverityCount"
| "count_packages (vuln # rest) pkgSeverityCount =
     (let cnts = (case pkgSeverityCount (PkgID vuln) of None \<Rightarrow> Map.empty | Some c \<Rightarrow> c)
      in count_packages rest
           (pkgSeverityCount(PkgID vuln \<mapsto> incr cnts (vuln_Severity vuln))))"

definition topLvlID :: "TableWriter \<Rightarrow> (string \<rightharpoonup> severity_count) \<Rightarrow> string \<Rightarrow> string" where
  "topLvlID tw pkgSeverityCount pkgID =
     (let summaries =
            snd (summary tw (case pkgSeverityCount pkgID of None \<Rightarrow> Map.empty | Some c \<Rightarrow> c));
          label = pkgID @ '', ('' @ Join summaries '', '' @ '')''
      in if Output_isTerminal tw then HiRedString label else label)"

fun render_tree ::
  "nat \<Rightarrow> TableWriter \<Rightarrow> (string \<rightharpoonup> severity_count) \<Rightarrow> parent_map \<Rightarrow>
   DetectedVulnerability list \<Rightarrow> string list \<Rightarrow> tree \<Rightarrow> tree option" where
  "render_tree fuel tw pkgSeverityCount parents [] seen root = Some root"
| "render_tree fuel tw pkgSeverityCount parents (vuln # rest) seen root =
     (if PkgID vuln \<in> set seen
      then render_tree fuel tw pkgSeverityCount parents rest seen root
      else
        (case addParents fuel (Node (topLvlID tw pkgSeverityCount (PkgID vuln)) [])
                (PkgID vuln) parents of
           None \<Rightarrow> None
         | Some branch \<Rightarrow>
             render_tree fuel tw pkgSeverityCount parents rest (PkgID vuln # seen)
               (AddBranch root branch)))"

text \<open>
  \<^verbatim>\<open>renderDependencyTree\<close>: \<open>None\<close> when the fuel did not suffice, \<open>Some None\<close> when
  it returns with nothing printed (no package has a parent), \<open>Some (Some t)\<close> when it
  prints the tree \<open>t\<close>.
\<close>

definition tree_header :: "string \<Rightarrow> string" where
  "tree_header target =
     CHR 0x0A # ''Dependency Origin Tree'' @ CHR 0x0A # ''======================'' @
     CHR 0x0A # target"

definition renderDependencyTree :: "nat \<Rightarrow> TableWriter \<Rightarrow> Result \<Rightarrow> tree option option" where
  "renderDependencyTree fuel tw result =
     (let parents = reverseDeps (Packages result)
      in if length parents = 0 then Some None
         else
           (let root = Node (tree_header (Target result)) [];
                pkgSeverityCount = count_packages (result_Vulnerabilities result) Map.empty
            in map_option Some
                 (render_tree fuel tw pkgSeverityCount parents
                    (result_Vulnerabilities result) [] root)))"

section \<open>The RPC client (package client)\<close>

text \<open>
  The request and response records of \<^verbatim>\<open>rpc/scanner\<close> and the scan options of
  \<^verbatim>\<open>pkg/types\<close>.  The payload of a response is left open (\<open>'r\<close>, \<open>'o\<close>): it is
  only handed to the conversion functions of \<^verbatim>\<open>pkg/rpc\<close>, which are parameters
  (record \<open>pkg_rpc\<close>), like the retry bound and the test for a transient error.
\<close>

type_synonym http_Header = "(string \<times> string list) list"

record ScanOptions =
  VulnType :: "string list"
  SecurityChecks :: "string list"
  ListAllPackages :: bool

record rpc_ScanOptions =
  rpc_VulnType :: "string list"
  rpc_SecurityChecks :: "string list"
  rpc_ListAllPackages :: bool

record ScanRequest =
  req_Target :: string
  ArtifactId :: string
  BlobIds :: "string list"
  Options :: rpc_ScanOptions

record ('r, 'o) ScanResponse =
  Os :: 'o
  resp_Results :: 'r

record ('r, 'o) Scanner =
  customHeaders :: http_Header
  client :: "nat \<Rightarrow> http_Header \<Rightarrow> ScanRequest \<Rightarrow> error + ('r, 'o) ScanResponse"

record ('r, 'o, 'os) pkg_rpc =
  transient :: "error \<Rightarrow> bool"
  maxRetries :: nat
  ConvertFromRPCResults :: "'r \<Rightarrow> Result list option"
  ConvertFromRPCOS :: "'o \<Rightarrow> 'os option"

record ('r, 'o) scan_state =
  res :: "('r, 'o) ScanResponse option"
  sent :: "(http_Header \<times> ScanRequest) list"

text \<open>
  Modelled from the spec: \<^verbatim>\<open>WithCustomHeaders\<close> is defined in another file of the
  package.  The spec says that the caller's headers are carried per call; the context
  of a call is modelled as the headers it carries.
\<close>

definition WithCustomHeaders :: "http_Header \<Rightarrow> http_Header" where
  "WithCustomHeaders headers = headers"

text \<open>
  Modelled from the spec: \<^verbatim>\<open>r.Retry\<close> belongs to \<^verbatim>\<open>pkg/rpc\<close>.  The spec says that
  the call is repeated on a transient failure, a bounded number of times, and that any
  other failure is not retried.  \<open>is_transient\<close> tells the transient errors and \<open>n\<close>
  is the number of retries left; the last error is the one returned.
\<close>

fun Retry ::
  "(error \<Rightarrow> bool) \<Rightarrow> nat \<Rightarrow> ('s \<Rightarrow> error option \<times> 's) \<Rightarrow> 's \<Rightarrow> error option \<times> 's" where
  "Retry is_transient 0 f s = f s"
| "Retry is_transient (Suc n) f s =
     (case f s of
        (None, s') \<Rightarrow> (None, s')
      | (Some e, s') \<Rightarrow> if is_transient e then Retry is_transient n f s' else (Some e, s'))"

text \<open>
  The function literal handed to \<^verbatim>\<open>Retry\<close>: one call of the client, which stores the
  response in \<open>res\<close>.  \<open>sent\<close> logs every request that leaves; the client's answer may
  depend on the number of earlier calls.
\<close>

definition Scan_call ::
  "('r, 'o) Scanner \<Rightarrow> http_Header \<Rightarrow> ScanRequest \<Rightarrow> ('r, 'o) scan_state \<Rightarrow>
   error option \<times> ('r, 'o) scan_state" where
  "Scan_call s ctx request st =
     (case client s (length (sent st)) ctx request of
        Inl e \<Rightarrow> (Some e, \<lparr>res = None, sent = sent st @ [(ctx, request)]\<rparr>)
      | Inr r \<Rightarrow> (None, \<lparr>res = Some r, sent = sent st @ [(ctx, request)]\<rparr>))"

text \<open>
  \<^verbatim>\<open>Scanner.Scan\<close>, with the requests sent as a second result.  Reading
  \<^verbatim>\<open>res.Results\<close> from a nil response would panic.
\<close>

definition Scan ::
  "('r, 'o, 'os) pkg_rpc \<Rightarrow> ('r, 'o) Scanner \<Rightarrow> string \<Rightarrow> string \<Rightarrow> string list \<Rightarrow>
   ScanOptions \<Rightarrow>
   (panic + (Result list option \<times> 'os option \<times> error option)) \<times>
   (http_Header \<times> ScanRequest) list" where
  "Scan r s target artifactKey blobKeys options =
     (let ctx = WithCustomHeaders (customHeaders s);
          request = \<lparr>req_Target = target, ArtifactId = artifactKey, BlobIds = blobKeys,
            Options = \<lparr>rpc_VulnType = VulnType options,
              rpc_SecurityChecks = SecurityChecks options,
              rpc_ListAllPackages = ListAllPackages options\<rparr>\<rparr>;
          (err, st) = Retry (transient r) (maxRetries r) (Scan_call s ctx request)
                        \<lparr>res = None, sent = []\<rparr>
      in case err of
           Some e \<Rightarrow>
             (Inr (None, None, Some (Wrapped ''failed to detect vulnerabilities via RPC'' e)),
              sent st)
         | None \<Rightarrow>
             (case res st of
                None \<Rightarrow> (Inl NilPointerDereference, sent st)
              | Some response \<Rightarrow>
                  (Inr (ConvertFromRPCResults r (resp_Results response),
                        ConvertFromRPCOS r (Os response), None),
                   sent st)))"

section \<open>Invariants and vocabulary of the statements\<close>

text \<open>
  The index of \<^verbatim>\<open>consolidate\<close> holds every key once, and every resource under the
  key that \<open>fullname\<close> gives it.
\<close>

definition index_ok :: "(string \<Rightarrow> string) \<Rightarrow> index_t \<Rightarrow> bool" where
  "index_ok unicodeLower index \<longleftrightarrow>
     distinct (map fst index) \<and> list_all (\<lambda>(k, x). fullname unicodeLower x = k) index"

text \<open>
  A slice is valid on a heap when its length is within its capacity and, unless the
  capacity is 0, its array is allocated and holds the whole window.  The slices of a
  running Go program are valid.
\<close>

definition valid :: "heap \<Rightarrow> slice \<Rightarrow> bool" where
  "valid h s \<longleftrightarrow>
     len s \<le> cap s \<and>
     (cap s = 0 \<or> array s < length h \<and> off s + cap s \<le> length (h ! array s))"

text \<open>
  The spare cells of a slice are the cells of its array behind its last element and
  within its capacity: the cells an \<^verbatim>\<open>append\<close> to it can write.  \<open>may_write s t\<close>
  says that a spare cell of \<open>s\<close> lies within the capacity of \<open>t\<close>.  Slices are
  separate when this holds for no two of them, by position in the list: they may share
  elements, but no \<^verbatim>\<open>append\<close> to one of them can write a cell of another.
\<close>

definition may_write :: "slice \<Rightarrow> slice \<Rightarrow> bool" where
  "may_write s t \<longleftrightarrow>
     array s = array t \<and> len s < cap s \<and> 0 < cap t \<and>
     off s + len s < off t + cap t \<and> off t < off s + cap s"

fun separate :: "slice list \<Rightarrow> bool" where
  "separate [] = True"
| "separate (s # ss) =
     (list_all (\<lambda>t. \<not> may_write s t \<and> \<not> may_write t s) ss \<and> separate ss)"

text \<open>The label and the branches of a tree node.\<close>

fun label :: "tree \<Rightarrow> string" where
  "label (Node v branches) = v"

fun branches :: "tree \<Rightarrow> tree list" where
  "branches (Node v bs) = bs"

text \<open>Several branches appended in order.\<close>

fun AddBranches :: "tree \<Rightarrow> tree list \<Rightarrow> tree" where
  "AddBranches topItem [] = topItem"
| "AddBranches topItem (branch # rest) = AddBranches (AddBranch topItem branch) rest"

text \<open>
  The traced paths of a tree: the labels from the root to each leaf.
\<close>

fun paths :: "tree \<Rightarrow> string list list" where
  "paths (Node v []) = [[v]]"
| "paths (Node v (b # bs)) = map ((#) v) (concat (map paths (b # bs)))"

text \<open>
  The edges of a parent map: \<open>(parent, pkgID)\<close> when the map lists \<open>parent\<close> among
  the parents of \<open>pkgID\<close>.
\<close>

definition parent_edges :: "parent_map \<Rightarrow> (string \<times> string) set" where
  "parent_edges parentMap =
     {(parent, pkgID). \<exists>parents. map_of parentMap pkgID = Some parents \<and> parent \<in> set parents}"

text \<open>
  The edges among the ancestors of a package \<open>p\<close>: the edges of the parent map that
  lead to \<open>p\<close> or to a package from which \<open>p\<close> is reached by parent edges.  These
  are the edges the walk from \<open>p\<close> can follow.
\<close>

definition ancestor_edges :: "parent_map \<Rightarrow> string \<Rightarrow> (string \<times> string) set" where
  "ancestor_edges parentMap p =
     {(a, b). (a, b) \<in> parent_edges parentMap \<and> (b, p) \<in> (parent_edges parentMap)\<^sup>*}"

text \<open>The count map of a package: a missing package reads as the empty (nil) map.\<close>

definition pkg_counts :: "(string \<rightharpoonup> severity_count) \<Rightarrow> string \<Rightarrow> severity_count" where
  "pkg_counts psc p = (case psc p of None \<Rightarrow> Map.empty | Some c \<Rightarrow> c)"

section \<open>Examples\<close>

definition ex_M_result :: Result where
  "ex_M_result = \<lparr>Target = ''M'', Class = ''config'', Type = ''kubernetes'', Packages = [],
     result_Vulnerabilities = [], result_Misconfigurations = [], Secrets = []\<rparr>"

definition ex_V_result :: Result where
  "ex_V_result = \<lparr>Target = ''V'', Class = ''os-pkgs'', Type = ''alpine'', Packages = [],
     result_Vulnerabilities = [], result_Misconfigurations = [], Secrets = []\<rparr>"

definition ex_W_result :: Result where
  "ex_W_result = \<lparr>Target = ''W'', Class = ''lang-pkgs'', Type = ''gomod'', Packages = [],
     result_Vulnerabilities = [], result_Misconfigurations = [], Secrets = []\<rparr>"

text \<open>
  A heap of three arrays.  The first holds the results of a misconfiguration scan and
  has one spare cell.
\<close>

definition ex_heap :: heap where
  "ex_heap = [[ex_M_result, zero_Result], [ex_V_result], [ex_W_result]]"

definition ex_misconf :: "slice Resource" where
  "ex_misconf = \<lparr>Namespace = ''default'', Kind = ''Pod'', Name = ''a'',
     Results = \<lparr>array = 0, off = 0, len = 1, cap = 2\<rparr>, Error = ''forbidden'',
     Report = \<lparr>report_Results = nil_slice\<rparr>\<rparr>"

definition ex_vuln :: "slice Resource" where
  "ex_vuln = \<lparr>Namespace = ''Default'', Kind = ''pod'', Name = ''A'',
     Results = \<lparr>array = 1, off = 0, len = 1, cap = 1\<rparr>, Error = ''timeout'',
     Report = \<lparr>report_Results = nil_slice\<rparr>\<rparr>"

definition ex_other :: "slice Resource" where
  "ex_other = \<lparr>Namespace = ''kube-system'', Kind = ''Node'', Name = ''n1'',
     Results = \<lparr>array = 2, off = 0, len = 1, cap = 1\<rparr>, Error = [],
     Report = \<lparr>report_Results = nil_slice\<rparr>\<rparr>"

definition ex_report :: "slice k8s_Report" where
  "ex_report = \<lparr>SchemaVersion = 1, ClusterName = ''minikube'',
     Vulnerabilities = [ex_vuln, ex_other], Misconfigurations = [ex_misconf]\<rparr>"

text \<open>A growth policy and a mapping for the strings that are not ASCII.\<close>

definition ex_growslice :: "nat \<Rightarrow> nat \<Rightarrow> nat" where
  "ex_growslice oldCap n = 2 * oldCap"

definition ex_unicodeLower :: "string \<Rightarrow> string" where
  "ex_unicodeLower s = s"

text \<open>
  Two misconfiguration resources whose results are the same slice, with a spare cell,
  and one vulnerability resource for each of them.
\<close>

definition alias_x :: "slice Resource" where
  "alias_x = \<lparr>Namespace = ''default'', Kind = ''Pod'', Name = ''x'',
     Results = \<lparr>array = 0, off = 0, len = 1, cap = 2\<rparr>, Error = [],
     Report = \<lparr>report_Results = nil_slice\<rparr>\<rparr>"

definition alias_y :: "slice Resource" where
  "alias_y = \<lparr>Namespace = ''default'', Kind = ''Pod'', Name = ''y'',
     Results = \<lparr>array = 0, off = 0, len = 1, cap = 2\<rparr>, Error = [],
     Report = \<lparr>report_Results = nil_slice\<rparr>\<rparr>"

definition alias_vx :: "slice Resource" where
  "alias_vx = \<lparr>Namespace = ''default'', Kind = ''Pod'', Name = ''x'',
     Results = \<lparr>array = 1, off = 0, len = 1, cap = 1\<rparr>, Error = [],
     Report = \<lparr>report_Results = nil_slice\<rparr>\<rparr>"

definition alias_vy :: "slice Resource" where
  "alias_vy = \<lparr>Namespace = ''default'', Kind = ''Pod'', Name = ''y'',
     Results = \<lparr>array = 2, off = 0, len = 1, cap = 1\<rparr>, Error = [],
     Report = \<lparr>report_Results = nil_slice\<rparr>\<rparr>"

definition alias_report :: "slice k8s_Report" where
  "alias_report = \<lparr>SchemaVersion = 1, ClusterName = ''minikube'',
     Vulnerabilities = [alias_vx, alias_vy], Misconfigurations = [alias_x, alias_y]\<rparr>"

definition ex_tw :: TableWriter where
  "ex_tw = \<lparr>Severities = [SeverityCritical, SeverityHigh], Output_isTerminal = False,
     Tree = True, IncludeNonFailures = False, Trace = False\<rparr>"

definition cyclic_packages :: "Package list" where
  "cyclic_packages =
     [\<lparr>ID = ''A'', DependsOn = [''B'']\<rparr>, \<lparr>ID = ''B'', DependsOn = [''C'']\<rparr>,
      \<lparr>ID = ''C'', DependsOn = [''A'']\<rparr>]"

definition cyclic_parents :: parent_map where
  "cyclic_parents = [(''B'', [''A'']), (''C'', [''B'']), (''A'', [''C''])]"

definition dag_packages :: "Package list" where
  "dag_packages =
     [\<lparr>ID = ''app'', DependsOn = [''lib'', ''base'']\<rparr>,
      \<lparr>ID = ''lib'', DependsOn = [''base'']\<rparr>,
      \<lparr>ID = ''base'', DependsOn = []\<rparr>]"

definition dag_rank :: "string \<Rightarrow> nat" where
  "dag_rank s = (if s = ''app'' then 0 else if s = ''lib'' then 1 else 2)"

definition ex_vulns :: "DetectedVulnerability list" where
  "ex_vulns =
     [\<lparr>VulnerabilityID = ''CVE-1'', PkgID = ''base'', vuln_Severity = ''HIGH''\<rparr>,
      \<lparr>VulnerabilityID = ''CVE-2'', PkgID = ''lib'', vuln_Severity = ''HIGH''\<rparr>,
      \<lparr>VulnerabilityID = ''CVE-3'', PkgID = ''base'', vuln_Severity = ''CRITICAL''\<rparr>,
      \<lparr>VulnerabilityID = ''CVE-4'', PkgID = ''base'', vuln_Severity = ''LOW''\<rparr>]"

definition ex_result :: Result where
  "ex_result = \<lparr>Target = ''go.mod'', Class = ''lang-pkgs'', Type = ''gomod'',
     Packages = dag_packages, result_Vulnerabilities = ex_vulns,
     result_Misconfigurations = [], Secrets = []\<rparr>"

definition cyclic_result :: Result where
  "cyclic_result = \<lparr>Target = ''go.mod'', Class = ''lang-pkgs'', Type = ''gomod'',
     Packages = cyclic_packages,
     result_Vulnerabilities =
       [\<lparr>VulnerabilityID = ''CVE-1'', PkgID = ''A'', vuln_Severity = ''HIGH''\<rparr>],
     result_Misconfigurations = [], Secrets = []\<rparr>"

definition ex_scanner :: "(string, string) Scanner" where
  "ex_scanner = \<lparr>customHeaders = [(''Trivy-Token'', [''secret''])],
     client = (\<lambda>n ctx request. Inl (Err ''unavailable''))\<rparr>"

definition ex_rpc :: "(string, string, string) pkg_rpc" where
  "ex_rpc = \<lparr>transient = (\<lambda>e. e = Err ''unavailable''), maxRetries = 2,
     ConvertFromRPCResults = (\<lambda>r. Some []), ConvertFromRPCOS = (\<lambda>r. Some r)\<rparr>"

definition ex_options :: ScanOptions where
  "ex_options = \<lparr>VulnType = [''os'', ''library''], SecurityChecks = [''vuln''],
     ListAllPackages = True\<rparr>"

section \<open>Facts about the kubernetes report\<close>

lemma any_Failed_iff: "any_Failed rf rs \<longleftrightarrow> (\<exists>x\<in>set rs. rf (Results x))"
  by (induction rs) auto

text \<open>
  C4.  \<^verbatim>\<open>Failed()\<close> is true exactly when some resource of the vulnerability list or
  of the misconfiguration list has results whose own check \<open>rf\<close> is true.  So it is
  false when no resource fails, and a resource that fails only late in a list is still
  found.
\<close>

theorem Failed_iff_some_resource_failed:
  "Failed rf r \<longleftrightarrow>
     (\<exists>x \<in> set (Vulnerabilities r) \<union> set (Misconfigurations r). rf (Results x))"
  by (auto simp: Failed_def any_Failed_iff)




lemma list_all_update:
  "list_all P al \<Longrightarrow> P (k, v) \<Longrightarrow> list_all P (AList.update k v al)"
  by (induction al) auto

lemma index_ok_update:
  "index_ok ul index \<Longrightarrow> fullname ul x = k \<Longrightarrow> index_ok ul (AList.update k x index)"
  unfolding index_ok_def
  by (simp add: distinct_update list_all_update)

lemma index_ok_misconfigurations:
  "index_ok ul index \<Longrightarrow> index_ok ul (index_misconfigurations ul ms index)"
  by (induction ms arbitrary: index) (auto simp: index_ok_update)

lemma map_of_index_ok:
  "index_ok ul index \<Longrightarrow> map_of index k = Some x \<Longrightarrow> fullname ul x = k"
  unfolding index_ok_def by (induction index) (auto split: if_splits)

lemma fullname_merged [simp]:
  "fullname ul \<lparr>Namespace = Namespace r, Kind = Kind r, Name = Name r,
             Results = rs, Error = e, Report = rep\<rparr> = fullname ul r"
  by (simp add: fullname_def)

lemma fst_merge_vulnerability:
  "fst (merge_vulnerability g ul v (index, h)) =
     (case map_of index (fullname ul v) of
        Some r \<Rightarrow>
          AList.update (fullname ul v)
            \<lparr>Namespace = Namespace r, Kind = Kind r, Name = Name r,
             Results = fst (append_slice g h (Results r) (elems h (Results v))),
             Error = Error r, Report = \<lparr>report_Results = nil_slice\<rparr>\<rparr> index
      | None \<Rightarrow> AList.update (fullname ul v) v index)"
  by (simp add: Let_def split: option.split prod.split)

lemma snd_merge_vulnerability:
  "snd (merge_vulnerability g ul v (index, h)) =
     (case map_of index (fullname ul v) of
        Some r \<Rightarrow> snd (append_slice g h (Results r) (elems h (Results v)))
      | None \<Rightarrow> h)"
  by (simp add: Let_def split: option.split prod.split)

lemma index_ok_merge_vulnerability:
  assumes "index_ok ul (fst st)"
  shows "index_ok ul (fst (merge_vulnerability g ul v st))"
proof -
  obtain index h where st: "st = (index, h)" by (cases st)
  from assms have ok: "index_ok ul index" by (simp add: st)
  show ?thesis
  proof (cases "map_of index (fullname ul v)")
    case None
    then show ?thesis
      unfolding st fst_merge_vulnerability by (simp add: index_ok_update [OF ok])
  next
    case (Some r)
    then have "fullname ul r = fullname ul v"
      using ok by (rule map_of_index_ok [rotated])
    with Some show ?thesis
      unfolding st fst_merge_vulnerability by (simp add: index_ok_update [OF ok])
  qed
qed

lemma index_ok_merge_vulnerabilities:
  "index_ok ul (fst st) \<Longrightarrow> index_ok ul (fst (merge_vulnerabilities g ul vs st))"
  by (induction vs arbitrary: st) (auto simp: index_ok_merge_vulnerability)

lemma index_ok_Nil: "index_ok ul []"
  by (simp add: index_ok_def)

lemma index_ok_consolidate: "index_ok ul (fst (consolidate_index g ul h r))"
  unfolding consolidate_index_def
  by (rule index_ok_merge_vulnerabilities) (simp add: index_ok_misconfigurations index_ok_Nil)

lemma keys_update: "fst ` set (AList.update k v al) = insert k (fst ` set al)"
  by (simp add: AList.dom_update)

lemma keys_misconfigurations:
  "fst ` set (index_misconfigurations ul ms index) = fst ` set index \<union> fullname ul ` set ms"
  by (induction ms arbitrary: index) (auto simp: keys_update)

lemma keys_merge_vulnerability:
  "fst ` set (fst (merge_vulnerability g ul v st)) = insert (fullname ul v) (fst ` set (fst st))"
proof -
  obtain index h where st: "st = (index, h)" by (cases st)
  show ?thesis
    unfolding st fst_merge_vulnerability
    by (simp add: keys_update split: option.split)
qed

lemma keys_merge_vulnerabilities:
  "fst ` set (fst (merge_vulnerabilities g ul vs st)) =
     fst ` set (fst st) \<union> fullname ul ` set vs"
  by (induction vs arbitrary: st) (auto simp: keys_merge_vulnerability)

lemma keys_consolidate:
  "fst ` set (fst (consolidate_index g ul h r)) =
     fullname ul ` (set (Misconfigurations r) \<union> set (Vulnerabilities r))"
  by (auto simp: consolidate_index_def keys_merge_vulnerabilities keys_misconfigurations)

lemma index_ok_fullnames:
  "index_ok ul index \<Longrightarrow> map (fullname ul) (map snd index) = map fst index"
  unfolding index_ok_def by (induction index) auto

lemma Findings_consolidate:
  "Findings (fst (consolidate g ul h r)) = map snd (fst (consolidate_index g ul h r))"
  by (simp add: consolidate_def maps_Values_def split: prod.split)

lemma snd_consolidate:
  "snd (consolidate g ul h r) = snd (consolidate_index g ul h r)"
  by (simp add: consolidate_def split: prod.split)

lemma index_ok_single_entry:
  "index_ok ul index \<Longrightarrow> map_of index k = Some e \<Longrightarrow>
   filter (\<lambda>x. fullname ul x = k) (map snd index) = [e]"
proof (induction index)
  case Nil
  then show ?case by simp
next
  case (Cons p index)
  obtain k' x where p: "p = (k', x)" by (cases p)
  from Cons.prems(1) have ok: "index_ok ul index" and fx: "fullname ul x = k'"
    and fresh: "k' \<notin> fst ` set index"
    and all: "list_all (\<lambda>(k, x). fullname ul x = k) index"
    by (auto simp: index_ok_def p)
  show ?case
  proof (cases "k' = k")
    case True
    have "filter (\<lambda>x. fullname ul x = k) (map snd index) = []"
      using fresh all True by (force simp: filter_empty_conv list_all_iff)
    with True Cons.prems(2) fx show ?thesis by (simp add: p)
  next
    case False
    with Cons.prems(2) have "map_of index k = Some e" by (simp add: p)
    from Cons.IH [OF ok this] False fx show ?thesis by (simp add: p)
  qed
qed

lemma map_of_index_misconfigurations:
  "map_of (index_misconfigurations ul ms index) k =
     (case filter (\<lambda>m. fullname ul m = k) ms of
        [] \<Rightarrow> map_of index k
      | m # rest \<Rightarrow> Some (last (m # rest)))"
  by (induction ms arbitrary: index) (auto simp: update_conv' split: list.splits)

lemma fullname_ex_misconf: "fullname ul ex_misconf = ''default/pod/a''"
  by (simp add: ex_misconf_def fullname_def ToLower_def isASCII_def toLower_byte_def char_of_def)

lemma fullname_ex_vuln: "fullname ul ex_vuln = ''default/pod/a''"
  by (simp add: ex_vuln_def fullname_def ToLower_def isASCII_def toLower_byte_def char_of_def)

lemma fullname_ex_other: "fullname ul ex_other = ''kube-system/node/n1''"
  by (simp add: ex_other_def fullname_def ToLower_def isASCII_def toLower_byte_def char_of_def)

lemma length_elems: "valid h s \<Longrightarrow> length (elems h s) = len s"
  by (auto simp: valid_def elems_def)

lemma write_at_length: "p + length xs \<le> length a \<Longrightarrow> length (write_at a p xs) = length a"
  by (simp add: write_at_def)

lemma write_at_nth:
  "p + length xs \<le> length a \<Longrightarrow> j < length a \<Longrightarrow> j < p \<or> p + length xs \<le> j \<Longrightarrow>
   write_at a p xs ! j = a ! j"
  by (auto simp: write_at_def nth_append)

lemma write_at_window:
  assumes "p + n + length xs \<le> length a"
  shows "take (n + length xs) (drop p (write_at a (p + n) xs)) = take n (drop p a) @ xs"
proof -
  have "drop p (write_at a (p + n) xs) =
      drop p (take (p + n) a) @ xs @ drop (p + n + length xs) a"
    using assms by (simp add: write_at_def)
  moreover have "drop p (take (p + n) a) = take n (drop p a)"
    by (simp add: drop_take)
  moreover have "length (take n (drop p a)) = n"
    using assms by simp
  ultimately show ?thesis by simp
qed

lemma write_at_elsewhere:
  assumes "p + length xs \<le> length a" and "q + n \<le> p \<or> p + length xs \<le> q"
  shows "take n (drop q (write_at a p xs)) = take n (drop q a)"
proof (rule nth_equalityI)
  show "length (take n (drop q (write_at a p xs))) = length (take n (drop q a))"
    using assms(1) by (simp add: write_at_length)
next
  fix j assume "j < length (take n (drop q (write_at a p xs)))"
  then have j: "j < n" "q + j < length a"
    using assms(1) by (auto simp: write_at_length)
  from j assms(2) have "q + j < p \<or> p + length xs \<le> q + j" by auto
  from write_at_nth [OF assms(1) j(2) this] j assms(1)
  show "take n (drop q (write_at a p xs)) ! j = take n (drop q a) ! j"
    by (simp add: write_at_length)
qed

lemma cap_positive: "len s + length xs \<le> cap s \<Longrightarrow> xs \<noteq> [] \<Longrightarrow> 0 < cap s"
  by (cases xs) auto

lemma append_slice_in_place:
  "len s + length xs \<le> cap s \<Longrightarrow>
   append_slice g h s xs =
     (s\<lparr>len := len s + length xs\<rparr>,
      if xs = [] then h else h[array s := write_at (h ! array s) (off s + len s) xs])"
  by (simp add: append_slice_def Let_def)

lemma append_slice_alloc:
  "\<not> len s + length xs \<le> cap s \<Longrightarrow>
   append_slice g h s xs =
     (\<lparr>array = length h, off = 0, len = len s + length xs,
       cap = max (len s + length xs) (g (cap s) (len s + length xs))\<rparr>,
      h @ [elems h s @ xs @
        replicate (max (len s + length xs) (g (cap s) (len s + length xs)) -
          (len s + length xs)) zero_Result])"
  by (simp add: append_slice_def Let_def)

lemma append_slice_elems:
  assumes "valid h s"
  shows "elems (snd (append_slice g h s xs)) (fst (append_slice g h s xs)) = elems h s @ xs"
proof (cases "len s + length xs \<le> cap s")
  case True
  show ?thesis
  proof (cases "xs = []")
    case True
    then show ?thesis
      using \<open>len s + length xs \<le> cap s\<close> by (simp add: append_slice_in_place elems_def)
  next
    case False
    with True have "0 < cap s" by (rule cap_positive)
    with True assms have a: "array s < length h"
      and b: "off s + len s + length xs \<le> length (h ! array s)"
      by (auto simp: valid_def)
    from write_at_window [OF b] True False a show ?thesis
      by (simp add: append_slice_in_place elems_def)
  qed
next
  case False
  from length_elems [OF assms] False show ?thesis
    by (simp add: append_slice_alloc elems_def)
qed

lemma append_slice_valid:
  assumes "valid h s"
  shows "valid (snd (append_slice g h s xs)) (fst (append_slice g h s xs))"
proof (cases "len s + length xs \<le> cap s")
  case True
  show ?thesis
  proof (cases "xs = []")
    case True
    with assms \<open>len s + length xs \<le> cap s\<close> show ?thesis
      by (simp add: append_slice_in_place valid_def)
  next
    case False
    with True have "0 < cap s" by (rule cap_positive)
    with assms have a: "array s < length h"
      and b: "off s + cap s \<le> length (h ! array s)"
      by (auto simp: valid_def)
    from True b have "off s + len s + length xs \<le> length (h ! array s)" by simp
    from write_at_length [OF this] True False a b show ?thesis
      by (simp add: append_slice_in_place valid_def)
  qed
next
  case False
  from length_elems [OF assms] False show ?thesis
    by (simp add: append_slice_alloc valid_def)
qed

lemma append_slice_frame:
  assumes s: "valid h s" and t: "valid h t" and d: "\<not> may_write s t" and d': "\<not> may_write t s"
  shows "elems (snd (append_slice g h s xs)) t = elems h t \<and>
     valid (snd (append_slice g h s xs)) t \<and>
     \<not> may_write (fst (append_slice g h s xs)) t \<and>
     \<not> may_write t (fst (append_slice g h s xs))"
proof (cases "len s + length xs \<le> cap s")
  case True
  have m: "\<not> may_write (s\<lparr>len := len s + length xs\<rparr>) t \<and>
      \<not> may_write t (s\<lparr>len := len s + length xs\<rparr>)"
    using d d' by (auto simp: may_write_def)
  show ?thesis
  proof (cases "xs = []")
    case True
    with t m \<open>len s + length xs \<le> cap s\<close> show ?thesis
      by (simp add: append_slice_in_place)
  next
    case False
    let ?a = "h ! array s"
    let ?p = "off s + len s"
    from True False have c: "0 < cap s" by (rule cap_positive)
    from False have x: "0 < length xs" by simp
    from c s have a: "array s < length h" and b: "off s + cap s \<le> length ?a"
      by (auto simp: valid_def)
    from True b have w: "?p + length xs \<le> length ?a" by simp
    have h': "snd (append_slice g h s xs) = h[array s := write_at ?a ?p xs]"
      and s': "fst (append_slice g h s xs) = s\<lparr>len := len s + length xs\<rparr>"
      using True False by (simp_all add: append_slice_in_place)
    have v: "valid (h[array s := write_at ?a ?p xs]) t"
    proof (cases "array t = array s")
      case True
      with t a write_at_length [OF w] show ?thesis
        by (simp add: valid_def)
    next
      case False
      with t show ?thesis
        by (simp add: valid_def)
    qed
    have e: "elems (h[array s := write_at ?a ?p xs]) t = elems h t"
    proof (cases "array t = array s \<and> 0 < cap t")
      case False
      then consider "array t \<noteq> array s" | "cap t = 0" by blast
      then show ?thesis
      proof cases
        case 1
        then show ?thesis by (simp add: elems_def)
      next
        case 2
        with t have "len t = 0" by (simp add: valid_def)
        then show ?thesis by (simp add: elems_def)
      qed
    next
      case True
      from x \<open>len s + length xs \<le> cap s\<close> have "len s < cap s" by linarith
      with d True have "off t + cap t \<le> ?p \<or> off s + cap s \<le> off t"
        by (auto simp: may_write_def)
      moreover from t have "len t \<le> cap t" by (simp add: valid_def)
      ultimately have "off t + len t \<le> ?p \<or> ?p + length xs \<le> off t"
        using \<open>len s + length xs \<le> cap s\<close> by auto
      from write_at_elsewhere [OF w this] True a show ?thesis
        by (simp add: elems_def)
    qed
    from v e m show ?thesis
      by (simp add: h' s')
  qed
next
  case False
  let ?new = "elems h s @ xs @
        replicate (max (len s + length xs) (g (cap s) (len s + length xs)) -
          (len s + length xs)) zero_Result"
  have h': "snd (append_slice g h s xs) = h @ [?new]"
    and s': "array (fst (append_slice g h s xs)) = length h"
    using False by (simp_all add: append_slice_alloc)
  from t have c: "cap t = 0 \<or> array t < length h \<and> off t + cap t \<le> length (h ! array t)"
    and l: "len t \<le> cap t"
    by (simp_all add: valid_def)
  have e: "elems (h @ [?new]) t = elems h t"
  proof (cases "cap t = 0")
    case True
    with l show ?thesis by (simp add: elems_def)
  next
    case False
    with c show ?thesis by (simp add: elems_def nth_append)
  qed
  have v: "valid (h @ [?new]) t"
    using c l by (auto simp: valid_def nth_append)
  have "\<not> may_write (fst (append_slice g h s xs)) t \<and>
      \<not> may_write t (fst (append_slice g h s xs))"
    using c s' by (auto simp: may_write_def)
  with e v show ?thesis
    by (simp add: h')
qed

lemma separate_append:
  "separate (A @ s # B) \<longleftrightarrow>
     separate (A @ B) \<and> (\<forall>t\<in>set A \<union> set B. \<not> may_write s t \<and> \<not> may_write t s)"
  by (induction A) (auto simp: list_all_iff)

lemma separate_disjoint:
  "separate (A @ s # B) \<Longrightarrow> t \<in> set A \<union> set B \<Longrightarrow> \<not> may_write s t \<and> \<not> may_write t s"
  by (simp add: separate_append)

lemma separate_replace:
  "separate (A @ s # B) \<Longrightarrow>
   \<forall>t\<in>set A \<union> set B. \<not> may_write s' t \<and> \<not> may_write t s' \<Longrightarrow>
   separate (A @ s' # B)"
  by (simp add: separate_append)

lemma separate_drop: "separate (A @ s # B) \<Longrightarrow> separate (A @ B)"
  by (simp add: separate_append)

lemma update_split:
  "map_of al k = Some e \<Longrightarrow>
   \<exists>A B. al = A @ (k, e) # B \<and> k \<notin> fst ` set A \<and>
     (\<forall>e'. AList.update k e' al = A @ (k, e') # B)"
proof (induction al)
  case Nil
  then show ?case by simp
next
  case (Cons p al)
  obtain k' x where p: "p = (k', x)" by (cases p)
  show ?case
  proof (cases "k' = k")
    case True
    with Cons.prems have "x = e" by (simp add: p)
    with True have "p # al = [] @ (k, e) # al \<and> k \<notin> fst ` set [] \<and>
        (\<forall>e'. AList.update k e' (p # al) = [] @ (k, e') # al)"
      by (simp add: p)
    then show ?thesis by blast
  next
    case False
    with Cons.prems have "map_of al k = Some e" by (simp add: p)
    from Cons.IH [OF this] obtain A B where "al = A @ (k, e) # B" "k \<notin> fst ` set A"
      "\<forall>e'. AList.update k e' al = A @ (k, e') # B" by blast
    with False have "p # al = (p # A) @ (k, e) # B \<and> k \<notin> fst ` set (p # A) \<and>
        (\<forall>e'. AList.update k e' (p # al) = (p # A) @ (k, e') # B)"
      by (simp add: p)
    then show ?thesis by blast
  qed
qed

lemma update_append_None: "map_of al k = None \<Longrightarrow> AList.update k v al = al @ [(k, v)]"
  by (induction al) (auto split: if_splits)

lemma separate_update:
  assumes "separate (map Results (map snd idx) @ Results m # R)"
  shows "separate (map Results (map snd (AList.update k m idx)) @ R)"
proof (cases "map_of idx k")
  case None
  with assms show ?thesis by (simp add: update_append_None)
next
  case (Some e0)
  from update_split [OF this] obtain A B where idx: "idx = A @ (k, e0) # B"
    and upd: "AList.update k m idx = A @ (k, m) # B" by blast
  let ?A = "map Results (map snd A)"
  let ?B = "map Results (map snd B)"
  from assms have "separate ((?A @ Results e0 # ?B) @ Results m # R)"
    by (simp add: idx)
  then have "separate ((?A @ Results e0 # ?B) @ R)"
    and 1: "\<forall>t\<in>set ?A \<union> set ?B \<union> set R. \<not> may_write (Results m) t \<and> \<not> may_write t (Results m)"
    unfolding separate_append [of "?A @ Results e0 # ?B"] by auto
  then have "separate (?A @ Results e0 # (?B @ R))" by simp
  then have "separate (?A @ (?B @ R))" by (rule separate_drop)
  with 1 have "separate (?A @ Results m # (?B @ R))"
    unfolding separate_append [of ?A] by auto
  then show ?thesis
    by (simp add: upd)
qed

lemma separate_index_misconfigurations:
  "separate (map Results (map snd idx) @ map Results ms @ R) \<Longrightarrow>
   separate (map Results (map snd (index_misconfigurations ul ms idx)) @ R)"
proof (induction ms arbitrary: idx)
  case Nil
  then show ?case by simp
next
  case (Cons m ms)
  from Cons.prems
  have "separate (map Results (map snd idx) @ Results m # (map Results ms @ R))" by simp
  then have "separate (map Results (map snd (AList.update (fullname ul m) m idx)) @
      map Results ms @ R)"
    by (rule separate_update)
  from Cons.IH [OF this] show ?case by simp
qed

lemma values_update: "snd ` set (AList.update k v al) \<subseteq> insert v (snd ` set al)"
  by (induction al) auto

lemma values_index_misconfigurations:
  "snd ` set (index_misconfigurations ul ms idx) \<subseteq> snd ` set idx \<union> set ms"
proof (induction ms arbitrary: idx)
  case Nil
  show ?case by simp
next
  case (Cons m ms)
  from Cons.IH [of "AList.update (fullname ul m) m idx"] values_update [of "fullname ul m" m idx]
  show ?case by auto
qed

lemma merge_vulnerability_step:
  assumes ok: "index_ok ul index"
    and val: "list_all (valid h) (map Results (map snd index) @ map Results (v # vs))"
    and sep: "separate (map Results (map snd index) @ map Results (v # vs))"
    and st: "merge_vulnerability g ul v (index, h) = (index1, h1)"
  shows "index_ok ul index1 \<and>
     list_all (valid h1) (map Results (map snd index1) @ map Results vs) \<and>
     separate (map Results (map snd index1) @ map Results vs) \<and>
     (\<forall>t\<in>set vs. elems h1 (Results t) = elems h (Results t)) \<and>
     (\<forall>k e. map_of index k = Some e \<longrightarrow>
        (\<exists>e1. map_of index1 k = Some e1 \<and>
           Namespace e1 = Namespace e \<and> Kind e1 = Kind e \<and> Name e1 = Name e \<and>
           Error e1 = Error e \<and>
           Report e1 =
             (if fullname ul v = k then \<lparr>report_Results = nil_slice\<rparr> else Report e) \<and>
           elems h1 (Results e1) =
             elems h (Results e) @ (if fullname ul v = k then elems h (Results v) else [])))"
proof (cases "map_of index (fullname ul v)")
  case None
  from st None have i1: "index1 = index @ [(fullname ul v, v)]" and h1: "h1 = h"
    using fst_merge_vulnerability [of g ul v index h] snd_merge_vulnerability [of g ul v index h]
    by (simp_all add: update_append_None)
  have a: "index_ok ul index1"
    using index_ok_update [OF ok refl, of v] None by (simp add: i1 update_append_None)
  have b: "list_all (valid h1) (map Results (map snd index1) @ map Results vs)"
    using val by (simp add: i1 h1)
  have c: "separate (map Results (map snd index1) @ map Results vs)"
    using sep by (simp add: i1)
  have e: "\<exists>e1. map_of index1 k = Some e1 \<and>
           Namespace e1 = Namespace e \<and> Kind e1 = Kind e \<and> Name e1 = Name e \<and>
           Error e1 = Error e \<and>
           Report e1 =
             (if fullname ul v = k then \<lparr>report_Results = nil_slice\<rparr> else Report e) \<and>
           elems h1 (Results e1) =
             elems h (Results e) @ (if fullname ul v = k then elems h (Results v) else [])"
    if m: "map_of index k = Some e" for k e
  proof -
    from m None have "fullname ul v \<noteq> k" by auto
    with m show ?thesis by (simp add: i1 h1 map_add_def)
  qed
  from a b c e show ?thesis by (simp add: h1)
next
  case (Some r)
  let ?key = "fullname ul v"
  let ?s = "Results r"
  let ?xs = "elems h (Results v)"
  from update_split [OF Some] obtain A B where idx: "index = A @ (?key, r) # B"
    and nA: "?key \<notin> fst ` set A"
    and upd: "\<And>e'. AList.update ?key e' index = A @ (?key, e') # B" by blast
  define s' where "s' = fst (append_slice g h ?s ?xs)"
  define r' where "r' = \<lparr>Namespace = Namespace r, Kind = Kind r, Name = Name r,
     Results = s', Error = Error r, Report = \<lparr>report_Results = nil_slice\<rparr>\<rparr>"
  from st Some have i1: "index1 = A @ (?key, r') # B"
    and h1: "h1 = snd (append_slice g h ?s ?xs)"
    using fst_merge_vulnerability [of g ul v index h] snd_merge_vulnerability [of g ul v index h]
    by (simp_all add: upd r'_def s'_def)
  let ?O = "map Results (map snd A) @ map Results (map snd B) @ map Results (v # vs)"
  from val have vs: "valid h ?s" and vO: "\<forall>t\<in>set ?O. valid h t"
    by (auto simp: idx list_all_iff)
  from sep have sep': "separate (map Results (map snd A) @
      ?s # (map Results (map snd B) @ map Results (v # vs)))"
    by (simp add: idx)
  have dO: "\<forall>t\<in>set ?O. \<not> may_write ?s t \<and> \<not> may_write t ?s"
    using separate_disjoint [OF sep'] by auto
  have fr: "elems h1 t = elems h t \<and> valid h1 t \<and> \<not> may_write s' t \<and> \<not> may_write t s'"
    if "t \<in> set ?O" for t
  proof -
    from that vO dO have "valid h t" "\<not> may_write ?s t" "\<not> may_write t ?s" by blast+
    from append_slice_frame [OF vs this, of g ?xs] show ?thesis
      by (simp add: h1 s'_def)
  qed
  have vs': "valid h1 s'"
    using append_slice_valid [OF vs, of g ?xs] by (simp add: h1 s'_def)
  have es': "elems h1 s' = elems h ?s @ ?xs"
    using append_slice_elems [OF vs, of g ?xs] by (simp add: h1 s'_def)
  have "fullname ul r = ?key"
    using ok Some by (rule map_of_index_ok)
  then have "fullname ul r' = ?key"
    by (simp add: r'_def)
  from index_ok_update [OF ok this] have a: "index_ok ul index1"
    by (simp add: i1 upd)
  have b: "list_all (valid h1) (map Results (map snd index1) @ map Results vs)"
    using fr vs' by (auto simp: i1 list_all_iff r'_def)
  have "separate (map Results (map snd A) @
      s' # (map Results (map snd B) @ map Results (v # vs)))"
    by (rule separate_replace [OF sep']) (use fr in auto)
  then have "separate ((map Results (map snd A) @ s' # map Results (map snd B)) @
      Results v # map Results vs)"
    by simp
  then have "separate ((map Results (map snd A) @ s' # map Results (map snd B)) @
      map Results vs)"
    by (rule separate_drop)
  then have c: "separate (map Results (map snd index1) @ map Results vs)"
    by (simp add: i1 r'_def)
  have d: "\<forall>t\<in>set vs. elems h1 (Results t) = elems h (Results t)"
    using fr by auto
  have e: "\<exists>e1. map_of index1 k = Some e1 \<and>
           Namespace e1 = Namespace e \<and> Kind e1 = Kind e \<and> Name e1 = Name e \<and>
           Error e1 = Error e \<and>
           Report e1 =
             (if fullname ul v = k then \<lparr>report_Results = nil_slice\<rparr> else Report e) \<and>
           elems h1 (Results e1) =
             elems h (Results e) @ (if fullname ul v = k then elems h (Results v) else [])"
    if m: "map_of index k = Some e" for k e
  proof (cases "k = ?key")
    case True
    with m Some have "e = r" by simp
    moreover from nA have "map_of A ?key = None"
      by (simp add: map_of_eq_None_iff)
    then have "map_of index1 ?key = Some r'"
      by (simp add: i1 map_add_def)
    ultimately show ?thesis
      using True es' by (simp add: r'_def)
  next
    case False
    with m have mi: "map_of index1 k = Some e"
      by (simp add: i1 idx map_add_def split: option.splits)
    from m False have "(k, e) \<in> set A \<union> set B"
      by (auto simp: idx map_add_def dest: map_of_SomeD split: option.splits)
    then have "Results e \<in> set ?O" by force
    from fr [OF this] mi False show ?thesis by auto
  qed
  from a b c d e show ?thesis by blast
qed

lemma merge_vulnerabilities_entry:
  assumes "index_ok ul index"
    and "list_all (valid h) (map Results (map snd index) @ map Results vs)"
    and "separate (map Results (map snd index) @ map Results vs)"
    and "map_of index k = Some e"
  shows "\<exists>e'. map_of (fst (merge_vulnerabilities g ul vs (index, h))) k = Some e' \<and>
     Namespace e' = Namespace e \<and> Kind e' = Kind e \<and> Name e' = Name e \<and>
     Error e' = Error e \<and>
     Report e' =
       (if filter (\<lambda>v. fullname ul v = k) vs = [] then Report e
        else \<lparr>report_Results = nil_slice\<rparr>) \<and>
     elems (snd (merge_vulnerabilities g ul vs (index, h))) (Results e') =
       elems h (Results e) @
       concat (map (\<lambda>v. elems h (Results v)) (filter (\<lambda>v. fullname ul v = k) vs))"
  using assms
proof (induction vs arbitrary: index h e)
  case Nil
  then show ?case by simp
next
  case (Cons v vs)
  obtain index1 h1 where st: "merge_vulnerability g ul v (index, h) = (index1, h1)"
    by (cases "merge_vulnerability g ul v (index, h)")
  from merge_vulnerability_step [OF Cons.prems(1,2,3) st]
  have ok1: "index_ok ul index1"
    and val1: "list_all (valid h1) (map Results (map snd index1) @ map Results vs)"
    and sep1: "separate (map Results (map snd index1) @ map Results vs)"
    and same: "\<forall>t\<in>set vs. elems h1 (Results t) = elems h (Results t)"
    and ent: "\<forall>k e. map_of index k = Some e \<longrightarrow>
        (\<exists>e1. map_of index1 k = Some e1 \<and>
           Namespace e1 = Namespace e \<and> Kind e1 = Kind e \<and> Name e1 = Name e \<and>
           Error e1 = Error e \<and>
           Report e1 =
             (if fullname ul v = k then \<lparr>report_Results = nil_slice\<rparr> else Report e) \<and>
           elems h1 (Results e1) =
             elems h (Results e) @ (if fullname ul v = k then elems h (Results v) else []))"
    by blast+
  from ent Cons.prems(4) obtain e1 where m1: "map_of index1 k = Some e1"
    and f1: "Namespace e1 = Namespace e" "Kind e1 = Kind e" "Name e1 = Name e"
      "Error e1 = Error e"
    and r1: "Report e1 =
      (if fullname ul v = k then \<lparr>report_Results = nil_slice\<rparr> else Report e)"
    and el1: "elems h1 (Results e1) =
      elems h (Results e) @ (if fullname ul v = k then elems h (Results v) else [])"
    by blast
  from Cons.IH [OF ok1 val1 sep1 m1] obtain e' where
    m': "map_of (fst (merge_vulnerabilities g ul vs (index1, h1))) k = Some e'"
    and f': "Namespace e' = Namespace e1" "Kind e' = Kind e1" "Name e' = Name e1"
      "Error e' = Error e1"
    and r': "Report e' =
       (if filter (\<lambda>v. fullname ul v = k) vs = [] then Report e1
        else \<lparr>report_Results = nil_slice\<rparr>)"
    and el': "elems (snd (merge_vulnerabilities g ul vs (index1, h1))) (Results e') =
       elems h1 (Results e1) @
       concat (map (\<lambda>v. elems h1 (Results v)) (filter (\<lambda>v. fullname ul v = k) vs))"
    by blast
  have cong: "map (\<lambda>v. elems h1 (Results v)) (filter (\<lambda>v. fullname ul v = k) vs) =
      map (\<lambda>v. elems h (Results v)) (filter (\<lambda>v. fullname ul v = k) vs)"
    using same by (intro map_cong refl) auto
  have ms: "merge_vulnerabilities g ul (v # vs) (index, h) =
      merge_vulnerabilities g ul vs (index1, h1)"
    using st by (simp del: merge_vulnerability.simps)
  from m' f' r' el' f1 r1 el1 cong show ?case
    unfolding ms by simp
qed

lemma consolidate_alias:
  "consolidate ex_growslice ex_unicodeLower ex_heap alias_report =
     (\<lparr>cons_SchemaVersion = 1, cons_ClusterName = ''minikube'',
       Findings =
         [\<lparr>Namespace = ''default'', Kind = ''Pod'', Name = ''x'',
           Results = \<lparr>array = 0, off = 0, len = 2, cap = 2\<rparr>, Error = [],
           Report = \<lparr>report_Results = nil_slice\<rparr>\<rparr>,
          \<lparr>Namespace = ''default'', Kind = ''Pod'', Name = ''y'',
           Results = \<lparr>array = 0, off = 0, len = 2, cap = 2\<rparr>, Error = [],
           Report = \<lparr>report_Results = nil_slice\<rparr>\<rparr>]\<rparr>,
      [[ex_M_result, ex_W_result], [ex_V_result], [ex_W_result]])"
  by (simp add: consolidate_def consolidate_index_def alias_report_def alias_x_def alias_y_def
      alias_vx_def alias_vy_def ex_heap_def maps_Values_def fullname_def ToLower_def isASCII_def
      toLower_byte_def char_of_def append_slice_def elems_def write_at_def Let_def)

text \<open>
  C2, as stated, fails where an append to the results of one resource writes a cell of
  another.  Two misconfiguration resources
  \<open>x\<close> and \<open>y\<close> hold the same slice, one result \<open>M\<close> with a spare cell behind it, and
  each has a vulnerability resource, with the results \<open>V\<close> and \<open>W\<close>.  Both appends
  write the spare cell, so the entry of \<open>x\<close> ends with the results \<open>M\<close>, \<open>W\<close>: not its
  own results followed by those of its vulnerability resource.
\<close>

theorem consolidate_merge_aliasing_counterexample:
  "map_of (index_misconfigurations ex_unicodeLower (Misconfigurations alias_report) [])
     ''default/pod/x'' = Some alias_x \<and>
   alias_vx \<in> set (Vulnerabilities alias_report) \<and>
   fullname ex_unicodeLower alias_vx = ''default/pod/x'' \<and>
   elems ex_heap (Results alias_x) @ elems ex_heap (Results alias_vx) =
     [ex_M_result, ex_V_result] \<and>
   \<not> (\<exists>e. filter (\<lambda>x. fullname ex_unicodeLower x = ''default/pod/x'')
            (Findings (fst (consolidate ex_growslice ex_unicodeLower ex_heap alias_report))) =
            [e] \<and>
          elems (snd (consolidate ex_growslice ex_unicodeLower ex_heap alias_report))
            (Results e) =
            elems ex_heap (Results alias_x) @ elems ex_heap (Results alias_vx))"
proof -
  have fx: "fullname ul alias_x = ''default/pod/x''" for ul
    by (simp add: alias_x_def fullname_def ToLower_def isASCII_def toLower_byte_def char_of_def)
  have fy: "fullname ul alias_y = ''default/pod/y''" for ul
    by (simp add: alias_y_def fullname_def ToLower_def isASCII_def toLower_byte_def char_of_def)
  have fvx: "fullname ul alias_vx = ''default/pod/x''" for ul
    by (simp add: alias_vx_def fullname_def ToLower_def isASCII_def toLower_byte_def char_of_def)
  have "map_of (index_misconfigurations ex_unicodeLower (Misconfigurations alias_report) [])
     ''default/pod/x'' = Some alias_x"
    by (simp add: alias_report_def fx fy)
  moreover have "alias_vx \<in> set (Vulnerabilities alias_report)"
    by (simp add: alias_report_def)
  moreover have "elems ex_heap (Results alias_x) @ elems ex_heap (Results alias_vx) =
     [ex_M_result, ex_V_result]"
    by (simp add: elems_def ex_heap_def alias_x_def alias_vx_def)
  moreover have "\<not> (\<exists>e. filter (\<lambda>x. fullname ex_unicodeLower x = ''default/pod/x'')
            (Findings (fst (consolidate ex_growslice ex_unicodeLower ex_heap alias_report))) =
            [e] \<and>
          elems (snd (consolidate ex_growslice ex_unicodeLower ex_heap alias_report))
            (Results e) =
            elems ex_heap (Results alias_x) @ elems ex_heap (Results alias_vx))"
  proof -
    let ?ex = "\<lparr>Namespace = ''default'', Kind = ''Pod'', Name = ''x'',
           Results = \<lparr>array = 0, off = 0, len = 2, cap = 2\<rparr>, Error = [],
           Report = \<lparr>report_Results = nil_slice\<rparr>\<rparr>"
    let ?ey = "\<lparr>Namespace = ''default'', Kind = ''Pod'', Name = ''y'',
           Results = \<lparr>array = 0, off = 0, len = 2, cap = 2\<rparr>, Error = [],
           Report = \<lparr>report_Results = nil_slice\<rparr>\<rparr>"
    have kx: "fullname ex_unicodeLower ?ex = ''default/pod/x''"
      by (simp add: fullname_def ToLower_def isASCII_def toLower_byte_def char_of_def)
    have ky: "fullname ex_unicodeLower ?ey = ''default/pod/y''"
      by (simp add: fullname_def ToLower_def isASCII_def toLower_byte_def char_of_def)
    have F: "filter (\<lambda>x. fullname ex_unicodeLower x = ''default/pod/x'')
        (Findings (fst (consolidate ex_growslice ex_unicodeLower ex_heap alias_report))) = [?ex]"
      by (simp add: consolidate_alias kx ky)
    have E: "elems (snd (consolidate ex_growslice ex_unicodeLower ex_heap alias_report))
        (Results ?ex) = [ex_M_result, ex_W_result]"
      by (simp add: consolidate_alias elems_def)
    have I: "elems ex_heap (Results alias_x) @ elems ex_heap (Results alias_vx) =
        [ex_M_result, ex_V_result]"
      by (simp add: elems_def ex_heap_def alias_x_def alias_vx_def)
    have N: "ex_W_result \<noteq> ex_V_result"
      by (simp add: ex_W_result_def ex_V_result_def)
    show ?thesis
      unfolding F I using E N by auto
  qed
  ultimately show ?thesis
    using fvx [of ex_unicodeLower] by blast
qed

text \<open>
  C2, amended.  Let the results of the resources of the report be valid slices on the
  heap \<open>h\<close> that are separate: no spare cell of one lies within the capacity of
  another.  Let \<open>m\<close> be the misconfiguration resource indexed under
  the key \<open>k\<close> when the first loop ends, and let some vulnerability resource have the
  key \<open>k\<close>.  Then the findings have exactly one entry of key \<open>k\<close>: namespace, kind,
  name and error are those of \<open>m\<close>, and on the heap that \<^verbatim>\<open>consolidate\<close> leaves its
  results are those of \<open>m\<close> followed by the results of the vulnerability resources of
  key \<open>k\<close>, in their order, as they were on \<open>h\<close>.  No error of a vulnerability
  resource reaches the entry.
\<close>

theorem consolidate_merge:
  assumes "list_all (valid h) (map Results (Misconfigurations r @ Vulnerabilities r))"
    and "separate (map Results (Misconfigurations r @ Vulnerabilities r))"
    and "map_of (index_misconfigurations ul (Misconfigurations r) []) k = Some m"
    and "v \<in> set (Vulnerabilities r)" and "fullname ul v = k"
  shows "\<exists>e. filter (\<lambda>x. fullname ul x = k) (Findings (fst (consolidate g ul h r))) = [e] \<and>
     Namespace e = Namespace m \<and> Kind e = Kind m \<and> Name e = Name m \<and>
     Error e = Error m \<and> Report e = \<lparr>report_Results = nil_slice\<rparr> \<and>
     elems (snd (consolidate g ul h r)) (Results e) =
       elems h (Results m) @
       concat (map (\<lambda>v. elems h (Results v))
         (filter (\<lambda>v. fullname ul v = k) (Vulnerabilities r)))"
proof -
  let ?ms = "Misconfigurations r"
  let ?vs = "Vulnerabilities r"
  let ?idx = "index_misconfigurations ul ?ms []"
  have ne: "filter (\<lambda>v. fullname ul v = k) ?vs \<noteq> []"
    using assms(4,5) by (auto simp: filter_empty_conv)
  have ok: "index_ok ul ?idx"
    by (simp add: index_ok_misconfigurations index_ok_Nil)
  have "snd ` set ?idx \<subseteq> set ?ms"
    using values_index_misconfigurations [of ul ?ms "[]"] by simp
  with assms(1) have val: "list_all (valid h) (map Results (map snd ?idx) @ map Results ?vs)"
    by (auto simp: list_all_iff)
  from assms(2) have "separate (map Results (map snd []) @ map Results ?ms @ map Results ?vs)"
    by simp
  then have sep: "separate (map Results (map snd ?idx) @ map Results ?vs)"
    by (rule separate_index_misconfigurations)
  from merge_vulnerabilities_entry [OF ok val sep assms(3), of g] ne
  obtain e where m: "map_of (fst (consolidate_index g ul h r)) k = Some e"
    and f: "Namespace e = Namespace m" "Kind e = Kind m" "Name e = Name m" "Error e = Error m"
      "Report e = \<lparr>report_Results = nil_slice\<rparr>"
    and el: "elems (snd (consolidate_index g ul h r)) (Results e) =
       elems h (Results m) @
       concat (map (\<lambda>v. elems h (Results v)) (filter (\<lambda>v. fullname ul v = k) ?vs))"
    unfolding consolidate_index_def by auto
  from index_ok_single_entry [OF index_ok_consolidate m]
  have "filter (\<lambda>x. fullname ul x = k) (Findings (fst (consolidate g ul h r))) = [e]"
    by (simp add: Findings_consolidate)
  with f el show ?thesis
    by (simp add: snd_consolidate)
qed

theorem consolidate_merge_witness:
  "list_all (valid ex_heap) (map Results (Misconfigurations ex_report @ Vulnerabilities ex_report)) \<and>
   separate (map Results (Misconfigurations ex_report @ Vulnerabilities ex_report)) \<and>
   map_of (index_misconfigurations ex_unicodeLower (Misconfigurations ex_report) [])
     ''default/pod/a'' = Some ex_misconf \<and>
   ex_vuln \<in> set (Vulnerabilities ex_report) \<and>
   fullname ex_unicodeLower ex_vuln = ''default/pod/a'' \<and>
   (\<exists>e. filter (\<lambda>x. fullname ex_unicodeLower x = ''default/pod/a'')
           (Findings (fst (consolidate ex_growslice ex_unicodeLower ex_heap ex_report))) = [e] \<and>
      Namespace e = ''default'' \<and> Kind e = ''Pod'' \<and> Name e = ''a'' \<and>
      Error e = ''forbidden'' \<and>
      elems (snd (consolidate ex_growslice ex_unicodeLower ex_heap ex_report)) (Results e) =
        [ex_M_result, ex_V_result])"
proof -
  have h1: "list_all (valid ex_heap)
      (map Results (Misconfigurations ex_report @ Vulnerabilities ex_report))"
    by (simp add: ex_report_def ex_misconf_def ex_vuln_def ex_other_def ex_heap_def valid_def)
  have h2: "separate (map Results (Misconfigurations ex_report @ Vulnerabilities ex_report))"
    by (simp add: ex_report_def ex_misconf_def ex_vuln_def ex_other_def may_write_def)
  have h3: "map_of (index_misconfigurations ex_unicodeLower (Misconfigurations ex_report) [])
      ''default/pod/a'' = Some ex_misconf"
    by (simp add: ex_report_def fullname_ex_misconf)
  have h4: "ex_vuln \<in> set (Vulnerabilities ex_report)"
    by (simp add: ex_report_def)
  have v: "filter (\<lambda>v. fullname ex_unicodeLower v = ''default/pod/a'')
      (Vulnerabilities ex_report) = [ex_vuln]"
    by (simp add: ex_report_def fullname_ex_vuln fullname_ex_other)
  have e: "elems ex_heap (Results ex_misconf) @ elems ex_heap (Results ex_vuln) =
      [ex_M_result, ex_V_result]"
    by (simp add: elems_def ex_heap_def ex_misconf_def ex_vuln_def)
  have m: "Namespace ex_misconf = ''default''" "Kind ex_misconf = ''Pod''"
    "Name ex_misconf = ''a''" "Error ex_misconf = ''forbidden''"
    by (simp_all add: ex_misconf_def)
  from consolidate_merge [OF h1 h2 h3 h4 fullname_ex_vuln, of ex_growslice]
  obtain e' where "filter (\<lambda>x. fullname ex_unicodeLower x = ''default/pod/a'')
           (Findings (fst (consolidate ex_growslice ex_unicodeLower ex_heap ex_report))) = [e']"
    and "Namespace e' = Namespace ex_misconf" "Kind e' = Kind ex_misconf"
      "Name e' = Name ex_misconf" "Error e' = Error ex_misconf"
    and "elems (snd (consolidate ex_growslice ex_unicodeLower ex_heap ex_report)) (Results e') =
       elems ex_heap (Results ex_misconf) @
       concat (map (\<lambda>v. elems ex_heap (Results v))
         (filter (\<lambda>v. fullname ex_unicodeLower v = ''default/pod/a'')
            (Vulnerabilities ex_report)))"
    by blast
  with v e m have "\<exists>e. filter (\<lambda>x. fullname ex_unicodeLower x = ''default/pod/a'')
           (Findings (fst (consolidate ex_growslice ex_unicodeLower ex_heap ex_report))) = [e] \<and>
      Namespace e = ''default'' \<and> Kind e = ''Pod'' \<and> Name e = ''a'' \<and>
      Error e = ''forbidden'' \<and>
      elems (snd (consolidate ex_growslice ex_unicodeLower ex_heap ex_report)) (Results e) =
        [ex_M_result, ex_V_result]"
    by simp
  with h1 h2 h3 h4 fullname_ex_vuln [of ex_unicodeLower] show ?thesis
    by blast
qed

text \<open>
  C3.  The findings of \<^verbatim>\<open>consolidate\<close> have pairwise different keys, their keys are
  exactly the keys of the input resources (no identity is dropped, none is invented),
  and so their number is the number of distinct keys.  Every input resource has exactly
  one finding of its key, which it shares with every input resource of the same key.
  The key is \<^verbatim>\<open>strings.ToLower\<close> of \<^verbatim>\<open>namespace/kind/name\<close>, so resources whose
  identities differ only in letter case, as that function sees it, have the same key;
  for an ASCII identity the letters A to Z are lowered and nothing else changes.
\<close>

theorem consolidate_one_entry_per_key:
  "distinct (map (fullname ul) (Findings (fst (consolidate g ul h r)))) \<and>
   set (map (fullname ul) (Findings (fst (consolidate g ul h r)))) =
     fullname ul ` (set (Misconfigurations r) \<union> set (Vulnerabilities r)) \<and>
   length (Findings (fst (consolidate g ul h r))) =
     card (fullname ul ` (set (Misconfigurations r) \<union> set (Vulnerabilities r))) \<and>
   (a \<in> set (Misconfigurations r) \<union> set (Vulnerabilities r) \<longrightarrow>
      length (filter (\<lambda>x. fullname ul x = fullname ul a)
                (Findings (fst (consolidate g ul h r)))) = 1) \<and>
   fullname ul a = ToLower ul (Namespace a @ ''/'' @ Kind a @ ''/'' @ Name a) \<and>
   (isASCII (Namespace a @ ''/'' @ Kind a @ ''/'' @ Name a) \<longrightarrow>
      fullname ul a = map toLower_byte (Namespace a @ ''/'' @ Kind a @ ''/'' @ Name a))"
proof -
  let ?idx = "fst (consolidate_index g ul h r)"
  let ?F = "Findings (fst (consolidate g ul h r))"
  let ?in = "set (Misconfigurations r) \<union> set (Vulnerabilities r)"
  have names: "map (fullname ul) ?F = map fst ?idx"
    using index_ok_fullnames [OF index_ok_consolidate, of ul g h r]
    by (simp add: Findings_consolidate)
  have d: "distinct (map fst ?idx)"
    using index_ok_consolidate [of ul g h r] by (simp add: index_ok_def)
  have s: "set (map fst ?idx) = fullname ul ` ?in"
    using keys_consolidate [of g ul h r] by simp
  have "length ?F = length (map fst ?idx)"
    by (simp add: Findings_consolidate)
  also have "\<dots> = card (set (map fst ?idx))"
    using d by (simp only: distinct_card)
  finally have l: "length ?F = card (fullname ul ` ?in)"
    using s by simp
  have one: "length (filter (\<lambda>x. fullname ul x = fullname ul a) ?F) = 1" if "a \<in> ?in"
  proof -
    from that s have "fullname ul a \<in> set (map fst ?idx)" by blast
    then obtain e where "map_of ?idx (fullname ul a) = Some e"
      by (metis map_of_eq_None_iff not_Some_eq set_map)
    from index_ok_single_entry [OF index_ok_consolidate this]
    show ?thesis by (simp add: Findings_consolidate)
  qed
  have c: "fullname ul a = ToLower ul (Namespace a @ ''/'' @ Kind a @ ''/'' @ Name a)"
    by (simp add: fullname_def)
  have c': "isASCII (Namespace a @ ''/'' @ Kind a @ ''/'' @ Name a) \<longrightarrow>
      fullname ul a = map toLower_byte (Namespace a @ ''/'' @ Kind a @ ''/'' @ Name a)"
    by (simp add: fullname_def ToLower_def)
  from names d s l one c c' show ?thesis by simp
qed

theorem consolidate_one_entry_per_key_witness:
  "ex_vuln \<in> set (Misconfigurations ex_report) \<union> set (Vulnerabilities ex_report) \<and>
   isASCII (Namespace ex_vuln @ ''/'' @ Kind ex_vuln @ ''/'' @ Name ex_vuln) \<and>
   fullname ex_unicodeLower ex_vuln = ''default/pod/a'' \<and>
   fullname ex_unicodeLower ex_misconf = ''default/pod/a'' \<and>
   length (filter (\<lambda>x. fullname ex_unicodeLower x = ''default/pod/a'')
     (Findings (fst (consolidate ex_growslice ex_unicodeLower ex_heap ex_report)))) = 1 \<and>
   distinct (map (fullname ex_unicodeLower)
     (Findings (fst (consolidate ex_growslice ex_unicodeLower ex_heap ex_report)))) \<and>
   length (Findings (fst (consolidate ex_growslice ex_unicodeLower ex_heap ex_report))) = 2 \<and>
   set (map (fullname ex_unicodeLower)
     (Findings (fst (consolidate ex_growslice ex_unicodeLower ex_heap ex_report)))) =
     {''default/pod/a'', ''kube-system/node/n1''}"
proof -
  have h: "ex_vuln \<in> set (Misconfigurations ex_report) \<union> set (Vulnerabilities ex_report)"
    by (simp add: ex_report_def)
  have i: "isASCII (Namespace ex_vuln @ ''/'' @ Kind ex_vuln @ ''/'' @ Name ex_vuln)"
    by (simp add: ex_vuln_def isASCII_def)
  have k: "fullname ex_unicodeLower ` (set (Misconfigurations ex_report) \<union>
      set (Vulnerabilities ex_report)) = {''default/pod/a'', ''kube-system/node/n1''}"
    by (auto simp: ex_report_def fullname_ex_misconf fullname_ex_vuln fullname_ex_other)
  have c: "card {''default/pod/a'', ''kube-system/node/n1''} = 2"
    by simp
  let ?F = "Findings (fst (consolidate ex_growslice ex_unicodeLower ex_heap ex_report))"
  from consolidate_one_entry_per_key
    [of ex_unicodeLower ex_growslice ex_heap ex_report ex_vuln]
  have d: "distinct (map (fullname ex_unicodeLower) ?F)"
    and s: "set (map (fullname ex_unicodeLower) ?F) =
      fullname ex_unicodeLower ` (set (Misconfigurations ex_report) \<union>
        set (Vulnerabilities ex_report))"
    and l: "length ?F =
      card (fullname ex_unicodeLower ` (set (Misconfigurations ex_report) \<union>
        set (Vulnerabilities ex_report)))"
    and o: "ex_vuln \<in> set (Misconfigurations ex_report) \<union> set (Vulnerabilities ex_report) \<longrightarrow>
      length (filter (\<lambda>x. fullname ex_unicodeLower x = fullname ex_unicodeLower ex_vuln) ?F) = 1"
    by blast+
  from o h have "length (filter (\<lambda>x. fullname ex_unicodeLower x = ''default/pod/a'') ?F) = 1"
    by (simp only: fullname_ex_vuln)
  moreover from s k have "set (map (fullname ex_unicodeLower) ?F) =
      {''default/pod/a'', ''kube-system/node/n1''}"
    by (simp only:)
  moreover from l k c have "length ?F = 2"
    by (simp only:)
  ultimately show ?thesis
    using h i d fullname_ex_vuln [of ex_unicodeLower] fullname_ex_misconf [of ex_unicodeLower]
    by blast
qed

text \<open>
  C9.  \<^verbatim>\<open>consolidate\<close> copies the schema version and the cluster name of the report;
  only the findings are computed.
\<close>

theorem consolidate_frame:
  "cons_SchemaVersion (fst (consolidate g ul h r)) = SchemaVersion r \<and>
   cons_ClusterName (fst (consolidate g ul h r)) = ClusterName r"
  by (simp add: consolidate_def split: prod.split)

section \<open>Facts about the table writer\<close>

lemma summary_loop_eq:
  "summary_loop sevs cnt names (tot, sums) =
     (tot + sum_list (map (get_count cnt) (filter (\<lambda>s. s \<in> set sevs) names)),
      sums @ map (\<lambda>s. s @ '': '' @ Sprint_d (get_count cnt s))
               (filter (\<lambda>s. s \<in> set sevs) names))"
  by (induction names arbitrary: tot sums) (auto simp: Let_def add.assoc)

lemma summary_eq:
  "summary tw cnt =
     (sum_list (map (get_count cnt)
        (filter (\<lambda>s. s \<in> Severity_String ` set (Severities tw)) SeverityNames)),
      map (\<lambda>s. s @ '': '' @ Sprint_d (get_count cnt s))
        (filter (\<lambda>s. s \<in> Severity_String ` set (Severities tw)) SeverityNames))"
  by (simp add: summary_def summary_loop_eq)

text \<open>
  C5.  \<^verbatim>\<open>summary\<close> walks the severity names in their fixed order (UNKNOWN, LOW, MEDIUM,
  HIGH, CRITICAL), whatever the order of the allow-list, and keeps the names of the
  allow-list: each gives one entry \<^verbatim>\<open>NAME: count\<close>, and the total is the sum of their
  counts (as a Go \<^verbatim>\<open>int\<close>).  Counts LOW 2, HIGH 3, CRITICAL 1 with the allow-list
  CRITICAL, HIGH give 4 and HIGH: 3, CRITICAL: 1.  The count map is only read, and
  \<^verbatim>\<open>countSeverities\<close> builds it without looking at the allow-list.
\<close>

theorem summary_allow_list:
  "summary tw cnt =
     (sum_list (map (get_count cnt)
        (filter (\<lambda>s. s \<in> Severity_String ` set (Severities tw)) SeverityNames)),
      map (\<lambda>s. s @ '': '' @ Sprint_d (get_count cnt s))
        (filter (\<lambda>s. s \<in> Severity_String ` set (Severities tw)) SeverityNames)) \<and>
   summary ex_tw [''LOW'' \<mapsto> 2, ''HIGH'' \<mapsto> 3, ''CRITICAL'' \<mapsto> 1] =
     (4, [''HIGH: 3'', ''CRITICAL: 1'']) \<and>
   countSeverities (tw\<lparr>Severities := sevs\<rparr>) result = countSeverities tw result"
proof -
  have ex: "summary ex_tw [''LOW'' \<mapsto> 2, ''HIGH'' \<mapsto> 3, ''CRITICAL'' \<mapsto> 1] =
     (4, [''HIGH: 3'', ''CRITICAL: 1''])"
    by (simp add: ex_tw_def summary_def SeverityNames_def get_count_def Sprint_d_def
        show_nat.simps)
  have fr: "countSeverities (tw\<lparr>Severities := sevs\<rparr>) result = countSeverities tw result"
    by (simp add: countSeverities_def)
  from summary_eq [of tw cnt] ex fr show ?thesis by simp
qed

lemma get_count_incr:
  "get_count (incr m k) s = (if s = k then get_count m k + 1 else get_count m s)"
  by (simp add: incr_def get_count_def)

lemma incr_None: "incr m k s = None \<longleftrightarrow> s \<noteq> k \<and> m s = None"
  by (simp add: incr_def)

lemma count_vulnerabilities_get:
  "get_count (count_vulnerabilities vs m) s =
     get_count m s + of_nat (length (filter (\<lambda>v. vuln_Severity v = s) vs))"
  by (induction vs arbitrary: m) (auto simp: get_count_incr)

lemma count_vulnerabilities_None:
  "count_vulnerabilities vs m s = None \<longleftrightarrow>
     m s = None \<and> filter (\<lambda>v. vuln_Severity v = s) vs = []"
  by (induction vs arbitrary: m) (auto simp: incr_None)

lemma count_secrets_get:
  "get_count (count_secrets xs m) s =
     get_count m s + of_nat (length (filter (\<lambda>x. secret_Severity x = s) xs))"
  by (induction xs arbitrary: m) (auto simp: get_count_incr)

lemma count_secrets_None:
  "count_secrets xs m s = None \<longleftrightarrow>
     m s = None \<and> filter (\<lambda>x. secret_Severity x = s) xs = []"
  by (induction xs arbitrary: m) (auto simp: incr_None)

lemma count_misconfigurations_get:
  "get_count (count_misconfigurations ms m) s =
     get_count m s +
     of_nat (length (filter (\<lambda>x. Status x = StatusFailure \<and> misconf_Severity x = s) ms))"
  by (induction ms arbitrary: m) (auto simp: get_count_incr)

lemma count_misconfigurations_None:
  "count_misconfigurations ms m s = None \<longleftrightarrow>
     m s = None \<and> filter (\<lambda>x. Status x = StatusFailure \<and> misconf_Severity x = s) ms = []"
  by (induction ms arbitrary: m) (auto simp: incr_None)

lemma get_count_empty: "get_count Map.empty s = 0"
  by (simp add: get_count_def)

lemma map_get_count: "m s = (if m s = None then None else Some (get_count m s))"
  by (simp add: get_count_def split: option.split)

text \<open>
  C6.  For every severity \<open>s\<close>, the map of \<^verbatim>\<open>countSeverities\<close> holds the number of
  vulnerabilities of severity \<open>s\<close>, plus the number of misconfigurations of severity
  \<open>s\<close> whose status is the failure status, plus the number of secrets of severity
  \<open>s\<close> (as a Go \<^verbatim>\<open>int\<close>), and it has no entry for \<open>s\<close> when that number is 0.
\<close>

theorem countSeverities_tally:
  "countSeverities tw result s =
     (let n = length (filter (\<lambda>v. vuln_Severity v = s) (result_Vulnerabilities result)) +
              length (filter (\<lambda>m. Status m = StatusFailure \<and> misconf_Severity m = s)
                        (result_Misconfigurations result)) +
              length (filter (\<lambda>x. secret_Severity x = s) (Secrets result))
      in if n = 0 then None else Some (of_nat n))"
proof -
  let ?c = "countSeverities tw result"
  have g: "get_count ?c s =
     of_nat (length (filter (\<lambda>v. vuln_Severity v = s) (result_Vulnerabilities result)) +
              length (filter (\<lambda>m. Status m = StatusFailure \<and> misconf_Severity m = s)
                        (result_Misconfigurations result)) +
              length (filter (\<lambda>x. secret_Severity x = s) (Secrets result)))"
    by (simp add: countSeverities_def count_vulnerabilities_get count_secrets_get
        count_misconfigurations_get get_count_empty add.commute add.left_commute)
  have n: "?c s = None \<longleftrightarrow>
     filter (\<lambda>v. vuln_Severity v = s) (result_Vulnerabilities result) = [] \<and>
     filter (\<lambda>m. Status m = StatusFailure \<and> misconf_Severity m = s)
                        (result_Misconfigurations result) = [] \<and>
     filter (\<lambda>x. secret_Severity x = s) (Secrets result) = []"
    by (auto simp: countSeverities_def count_vulnerabilities_None count_secrets_None
        count_misconfigurations_None)
  show ?thesis
    using map_get_count [of ?c s] g n by (auto simp: Let_def)
qed

lemma reverseDeps_cyclic_packages: "reverseDeps cyclic_packages = [(''B'', [''A'']), (''C'', [''B'']), (''A'', [''C''])]"
  by (simp add: reverseDeps_def cyclic_packages_def Uniq_def)

lemma those_eq_Some: "those xs = Some ys \<longleftrightarrow> xs = map Some ys"
  by (induction xs arbitrary: ys) (auto split: option.splits)

lemma those_eq_None: "those xs = None \<longleftrightarrow> None \<in> set xs"
  by (induction xs) (auto split: option.splits)

lemma AddBranches_Node: "AddBranches (Node v cs) bs = Node v (cs @ bs)"
  by (induction bs arbitrary: cs) auto

lemma those_map_Some:
  "those (map f xs) = Some ys \<longleftrightarrow> list_all2 (\<lambda>x y. f x = Some y) xs ys"
proof (induction xs arbitrary: ys)
  case Nil
  show ?case by auto
next
  case (Cons x xs)
  show ?case
    by (cases ys) (auto simp: Cons.IH split: option.splits)
qed

lemma addParents_range_those:
  "addParents_range fuel topItem ps pm =
     map_option (AddBranches topItem)
       (those (map (\<lambda>q. addParents fuel (Node q []) q pm) ps))"
proof (induction ps arbitrary: topItem)
  case Nil
  show ?case by simp
next
  case (Cons q ps)
  show ?case
  proof (cases "addParents fuel (Node q []) q pm")
    case None
    then show ?thesis by simp
  next
    case (Some b)
    then show ?thesis
      by (cases "those (map (\<lambda>q. addParents fuel (Node q []) q pm) ps)")
        (simp_all add: Cons.IH)
  qed
qed

lemma addParents_Suc:
  "addParents (Suc fuel) topI p pm =
     (case map_of pm p of None \<Rightarrow> Some topI
      | Some ps \<Rightarrow> map_option (AddBranches topI)
          (those (map (\<lambda>q. addParents fuel (Node q []) q pm) ps)))"
  by (cases "map_of pm p") (simp_all add: addParents_range_those)

declare addParents.simps(2) [simp del]

declare addParents_Suc [simp]

lemma addParents_cyclic:
  "addParents fuel topI ''A'' cyclic_parents = None \<and>
   addParents fuel topI ''B'' cyclic_parents = None \<and>
   addParents fuel topI ''C'' cyclic_parents = None"
proof (induction fuel arbitrary: topI)
  case 0
  show ?case by simp
next
  case (Suc fuel)
  have a: "addParents fuel (Node ''A'' []) ''A'' cyclic_parents = None"
    and b: "addParents fuel (Node ''B'' []) ''B'' cyclic_parents = None"
    and c: "addParents fuel (Node ''C'' []) ''C'' cyclic_parents = None"
    using Suc.IH by blast+
  have ma: "map_of cyclic_parents ''A'' = Some [''C'']"
    and mb: "map_of cyclic_parents ''B'' = Some [''A'']"
    and mc: "map_of cyclic_parents ''C'' = Some [''B'']"
    by (simp_all add: cyclic_parents_def)
  show ?case by (simp add: ma mb mc a b c)
qed

text \<open>
  C1, as stated, fails.  For the packages A, B, C where A depends on B, B on C and C on
  A, the walk from A returns for no amount of fuel: \<^verbatim>\<open>addParents\<close> keeps no record of
  the packages on the current path and calls itself for ever.
\<close>

theorem addParents_cycle_counterexample:
  "\<not> (\<exists>fuel t. addParents fuel (Node ''A'' []) ''A'' (reverseDeps cyclic_packages) = Some t)"
  using addParents_cyclic by (simp add: reverseDeps_cyclic_packages cyclic_parents_def)

lemma addParents_Some_iff:
  "addParents (Suc fuel) topI p pm = Some t \<longleftrightarrow>
     (map_of pm p = None \<and> t = topI) \<or>
     (\<exists>ps bs. map_of pm p = Some ps \<and>
        list_all2 (\<lambda>q b. addParents fuel (Node q []) q pm = Some b) ps bs \<and>
        t = AddBranches topI bs)"
  by (auto simp: those_map_Some split: option.splits)

lemma addParents_mono:
  "addParents fuel topI p pm = Some t \<Longrightarrow> addParents (Suc fuel) topI p pm = Some t"
proof (induction fuel arbitrary: topI p t)
  case 0
  then show ?case by simp
next
  case (Suc fuel)
  show ?case
  proof (cases "map_of pm p")
    case None
    with Suc.prems have "t = topI" by simp
    with None show ?thesis unfolding addParents_Some_iff [of "Suc fuel"] by simp
  next
    case (Some ps)
    with Suc.prems obtain bs where
      l: "list_all2 (\<lambda>q b. addParents fuel (Node q []) q pm = Some b) ps bs"
      and t: "t = AddBranches topI bs"
      unfolding addParents_Some_iff [of fuel] by auto
    from l have
      "list_all2 (\<lambda>q b. addParents (Suc fuel) (Node q []) q pm = Some b) ps bs"
      by (rule list_all2_mono) (rule Suc.IH)
    with Some t show ?thesis unfolding addParents_Some_iff [of "Suc fuel"] by blast
  qed
qed

lemma addParents_mono_add:
  "addParents fuel topI p pm = Some t \<Longrightarrow> addParents (fuel + k) topI p pm = Some t"
proof (induction k)
  case 0
  then show ?case by simp
next
  case (Suc k)
  then have "addParents (fuel + k) topI p pm = Some t" by blast
  then have "addParents (Suc (fuel + k)) topI p pm = Some t" by (rule addParents_mono)
  then show ?case by (simp del: addParents_Suc)
qed

lemma addParents_mono_le:
  assumes "addParents fuel topI p pm = Some t" and "fuel \<le> fuel'"
  shows "addParents fuel' topI p pm = Some t"
proof -
  from assms(2) obtain k where "fuel' = fuel + k" by (auto simp: le_iff_add)
  with addParents_mono_add [OF assms(1), of k] show ?thesis by simp
qed

lemma finite_parent_edges: "finite (parent_edges pm)"
proof -
  have "parent_edges pm \<subseteq> (\<Union>x\<in>set pm. set (snd x)) \<times> fst ` set pm"
    by (force simp: parent_edges_def dest: map_of_SomeD)
  moreover have "finite ((\<Union>x\<in>set pm. set (snd x)) \<times> fst ` set pm)"
    by simp
  ultimately show ?thesis by (rule finite_subset)
qed

lemma addParents_wf_returns:
  assumes "wf (parent_edges pm)"
  shows "\<exists>fuel. \<forall>topI. \<exists>t. addParents fuel topI p pm = Some t"
  using assms
proof (induction p rule: wf_induct_rule)
  case (less p)
  show ?case
  proof (cases "map_of pm p")
    case None
    then have "\<forall>topI. \<exists>t. addParents (Suc 0) topI p pm = Some t"
      unfolding addParents_Some_iff by blast
    then show ?thesis ..
  next
    case (Some ps)
    have "\<forall>q\<in>set ps. \<exists>n. \<forall>topI. \<exists>t. addParents n topI q pm = Some t"
    proof
      fix q assume "q \<in> set ps"
      with Some have "(q, p) \<in> parent_edges pm"
        by (auto simp: parent_edges_def)
      then show "\<exists>n. \<forall>topI. \<exists>t. addParents n topI q pm = Some t"
        by (rule less.IH)
    qed
    then obtain f where f: "\<forall>q\<in>set ps. \<forall>topI. \<exists>t. addParents (f q) topI q pm = Some t"
      by metis
    define N where "N = sum_list (map f ps)"
    have ret: "\<exists>b. addParents N (Node q []) q pm = Some b" if "q \<in> set ps" for q
    proof -
      from f that obtain b where "addParents (f q) (Node q []) q pm = Some b" by blast
      moreover have "f q \<le> N"
        unfolding N_def using that by (simp add: member_le_sum_list)
      ultimately have "addParents N (Node q []) q pm = Some b"
        by (rule addParents_mono_le)
      then show ?thesis ..
    qed
    have "None \<notin> set (map (\<lambda>q. addParents N (Node q []) q pm) ps)"
      using ret by force
    then have "those (map (\<lambda>q. addParents N (Node q []) q pm) ps) \<noteq> None"
      by (simp only: those_eq_None not_False_eq_True)
    then obtain bs where "those (map (\<lambda>q. addParents N (Node q []) q pm) ps) = Some bs"
      by blast
    with Some have "\<forall>topI. \<exists>t. addParents (Suc N) topI p pm = Some t"
      by simp
    then show ?thesis ..
  qed
qed

lemma succ_trancl:
  "successively (\<lambda>x y. (y, x) \<in> R) (x # xs) \<Longrightarrow> y \<in> set xs \<Longrightarrow> (y, x) \<in> R\<^sup>+"
proof (induction xs arbitrary: x)
  case Nil
  then show ?case by simp
next
  case (Cons z zs)
  from Cons.prems(1) have zx: "(z, x) \<in> R" and s: "successively (\<lambda>x y. (y, x) \<in> R) (z # zs)"
    by simp_all
  show ?case
  proof (cases "y = z")
    case True
    with zx show ?thesis by blast
  next
    case False
    with Cons.prems(2) have "y \<in> set zs" by simp
    from Cons.IH [OF s this] zx show ?thesis by (rule trancl_into_trancl)
  qed
qed

lemma succ_distinct:
  "acyclic R \<Longrightarrow> successively (\<lambda>x y. (y, x) \<in> R) xs \<Longrightarrow> distinct xs"
proof (induction xs)
  case Nil
  show ?case by simp
next
  case (Cons x xs)
  have "x \<notin> set xs"
  proof
    assume "x \<in> set xs"
    with Cons.prems(2) have "(x, x) \<in> R\<^sup>+" by (rule succ_trancl)
    with Cons.prems(1) show False by (simp add: acyclic_def)
  qed
  moreover have "successively (\<lambda>x y. (y, x) \<in> R) xs"
    using Cons.prems(2) by (cases xs) simp_all
  ultimately show ?case using Cons.IH Cons.prems(1) by simp
qed

lemma paths_Node:
  "paths (Node v bs) = (if bs = [] then [[v]] else map ((#) v) (concat (map paths bs)))"
  by (cases bs) simp_all

lemma list_all2_witness:
  "list_all2 P xs ys \<Longrightarrow> y \<in> set ys \<Longrightarrow> \<exists>x\<in>set xs. P x y"
  by (induction rule: list_all2_induct) auto

lemma addParents_paths:
  "addParents fuel (Node p []) p pm = Some t \<Longrightarrow> path \<in> set (paths t) \<Longrightarrow>
   (\<exists>rest. path = p # rest) \<and> successively (\<lambda>x y. (y, x) \<in> parent_edges pm) path"
proof (induction fuel arbitrary: p t path)
  case 0
  then show ?case by simp
next
  case (Suc fuel)
  show ?case
  proof (cases "map_of pm p")
    case None
    with Suc.prems(1) have "t = Node p []" by simp
    with Suc.prems(2) show ?thesis by simp
  next
    case (Some ps)
    with Suc.prems(1) obtain bs where
      l: "list_all2 (\<lambda>q b. addParents fuel (Node q []) q pm = Some b) ps bs"
      and t0: "t = AddBranches (Node p []) bs"
      unfolding addParents_Some_iff [of fuel] by auto
    have t: "t = Node p bs" using t0 by (simp add: AddBranches_Node)
    show ?thesis
    proof (cases "bs = []")
      case True
      with t Suc.prems(2) show ?thesis by simp
    next
      case False
      with t Suc.prems(2) obtain b sub where b: "b \<in> set bs" and sub: "sub \<in> set (paths b)"
        and path: "path = p # sub"
        by (auto simp: paths_Node)
      from list_all2_witness [OF l b] obtain q where q: "q \<in> set ps"
        and r: "addParents fuel (Node q []) q pm = Some b" by blast
      from Suc.IH [OF r sub] obtain rest where rest: "sub = q # rest"
        and s: "successively (\<lambda>x y. (y, x) \<in> parent_edges pm) sub" by blast
      have "(q, p) \<in> parent_edges pm"
        using Some q by (auto simp: parent_edges_def)
      with rest s path show ?thesis by simp
    qed
  qed
qed

text \<open>
  C1, amended.  When the parent map has no cycle, the walk from any package returns:
  some amount of fuel suffices, every larger amount gives the same tree, and no package
  identifier occurs twice on a path from the root of that tree to a leaf.
\<close>

theorem addParents_acyclic:
  assumes "acyclic (parent_edges parentMap)"
  shows "\<exists>fuel t.
     (\<forall>fuel'\<ge>fuel. addParents fuel' (Node pkgID []) pkgID parentMap = Some t) \<and>
     (\<forall>path\<in>set (paths t). distinct path)"
proof -
  have "wf (parent_edges parentMap)"
    using finite_parent_edges assms by (rule finite_acyclic_wf)
  from addParents_wf_returns [OF this, of pkgID] obtain fuel t
    where r: "addParents fuel (Node pkgID []) pkgID parentMap = Some t" by blast
  have "\<forall>fuel'\<ge>fuel. addParents fuel' (Node pkgID []) pkgID parentMap = Some t"
    using r by (blast intro: addParents_mono_le)
  moreover have "\<forall>path\<in>set (paths t). distinct path"
    using addParents_paths [OF r] succ_distinct [OF assms] by blast
  ultimately show ?thesis by blast
qed

lemma reverseDeps_dag_packages: "reverseDeps dag_packages = [(''lib'', [''app'']), (''base'', [''app'', ''lib''])]"
  by (simp add: reverseDeps_def dag_packages_def Uniq_def)

lemma acyclic_dag: "acyclic (parent_edges (reverseDeps dag_packages))"
proof -
  have "parent_edges (reverseDeps dag_packages) \<subseteq> measure dag_rank"
    by (auto simp: reverseDeps_dag_packages parent_edges_def dag_rank_def split: if_splits)
  then show ?thesis
    by (rule acyclic_subset [rotated]) (simp add: wf_acyclic)
qed

theorem addParents_acyclic_witness:
  "acyclic (parent_edges (reverseDeps dag_packages)) \<and>
   addParents 3 (Node ''base'' []) ''base'' (reverseDeps dag_packages) =
     Some (Node ''base'' [Node ''app'' [], Node ''lib'' [Node ''app'' []]]) \<and>
   paths (Node ''base'' [Node ''app'' [], Node ''lib'' [Node ''app'' []]]) =
     [[''base'', ''app''], [''base'', ''lib'', ''app'']] \<and>
   (\<exists>fuel t.
     (\<forall>fuel'\<ge>fuel. addParents fuel' (Node ''base'' []) ''base'' (reverseDeps dag_packages) = Some t) \<and>
     (\<forall>path\<in>set (paths t). distinct path))"
proof -
  have e: "addParents 3 (Node ''base'' []) ''base'' (reverseDeps dag_packages) =
     Some (Node ''base'' [Node ''app'' [], Node ''lib'' [Node ''app'' []]])"
    by (simp add: reverseDeps_dag_packages numeral_3_eq_3)
  have p: "paths (Node ''base'' [Node ''app'' [], Node ''lib'' [Node ''app'' []]]) =
     [[''base'', ''app''], [''base'', ''lib'', ''app'']]"
    by simp
  from addParents_acyclic [OF acyclic_dag, of "''base''"] acyclic_dag e p
  show ?thesis by blast
qed

lemma addParents_label: "addParents fuel topI p pm = Some t \<Longrightarrow> label t = label topI"
proof (cases fuel)
  case 0
  assume "addParents fuel topI p pm = Some t"
  with 0 show ?thesis by simp
next
  case (Suc n)
  assume a: "addParents fuel topI p pm = Some t"
  obtain v cs where topI: "topI = Node v cs" by (cases topI)
  from a Suc show ?thesis
    by (auto simp: topI AddBranches_Node split: option.splits)
qed

lemma Uniq_loop_result: "Uniq_loop xs seen acc = acc @ Uniq_loop xs seen []"
proof (induction xs arbitrary: seen acc)
  case Nil
  show ?case by simp
next
  case (Cons x xs)
  show ?case
    using Cons.IH [of seen acc] Cons.IH [of "x # seen" "acc @ [x]"] Cons.IH [of "x # seen" "[x]"]
    by simp
qed

lemma Uniq_loop_Cons:
  "Uniq_loop (x # xs) seen [] =
     (if x \<in> set seen then Uniq_loop xs seen [] else x # Uniq_loop xs (x # seen) [])"
  using Uniq_loop_result [of xs "x # seen" "[x]"] by simp

lemma set_Uniq_loop: "set (Uniq_loop xs seen []) = set xs - set seen"
  by (induction xs arbitrary: seen) (auto simp: Uniq_loop_Cons simp del: Uniq_loop.simps(2))

lemma distinct_Uniq_loop: "distinct (Uniq_loop xs seen [])"
  by (induction xs arbitrary: seen)
    (auto simp: Uniq_loop_Cons set_Uniq_loop simp del: Uniq_loop.simps(2))

lemma render_tree_branches:
  "render_tree fuel tw psc parents vs seen (Node h bs) = Some t \<Longrightarrow>
   \<exists>bs'. t = Node h (bs @ bs') \<and>
     map label bs' = map (topLvlID tw psc) (Uniq_loop (map PkgID vs) seen [])"
proof (induction vs arbitrary: seen bs t)
  case Nil
  then show ?case by simp
next
  case (Cons v vs)
  show ?case
  proof (cases "PkgID v \<in> set seen")
    case True
    with Cons.prems have "render_tree fuel tw psc parents vs seen (Node h bs) = Some t"
      by simp
    from Cons.IH [OF this] True show ?thesis
      by (simp add: Uniq_loop_Cons del: Uniq_loop.simps(2))
  next
    case False
    with Cons.prems obtain b where
      b: "addParents fuel (Node (topLvlID tw psc (PkgID v)) []) (PkgID v) parents = Some b"
      and r: "render_tree fuel tw psc parents vs (PkgID v # seen) (Node h (bs @ [b])) = Some t"
      by (auto split: option.splits)
    from addParents_label [OF b] have lb: "label b = topLvlID tw psc (PkgID v)" by simp
    from Cons.IH [OF r] obtain bs' where "t = Node h ((bs @ [b]) @ bs')"
      and "map label bs' = map (topLvlID tw psc) (Uniq_loop (map PkgID vs) (PkgID v # seen) [])"
      by blast
    with lb False have "t = Node h (bs @ (b # bs')) \<and>
      map label (b # bs') = map (topLvlID tw psc) (Uniq_loop (map PkgID (v # vs)) seen [])"
      by (simp add: Uniq_loop_Cons del: Uniq_loop.simps(2))
    then show ?thesis by blast
  qed
qed

lemma count_packages_get:
  "get_count (pkg_counts (count_packages vs psc) p) s =
     get_count (pkg_counts psc p) s +
     of_nat (length (filter (\<lambda>v. PkgID v = p \<and> vuln_Severity v = s) vs))"
proof (induction vs arbitrary: psc)
  case Nil
  show ?case by simp
next
  case (Cons v vs)
  show ?case
    by (simp add: Cons.IH Let_def)
      (auto simp: pkg_counts_def get_count_incr split: option.splits)
qed

lemma topLvlID_eq:
  "topLvlID tw (count_packages vulns Map.empty) p =
     (if Output_isTerminal tw then HiRedString else id)
       (p @ '', ('' @
        Join (map (\<lambda>s. s @ '': '' @
                Sprint_d (of_nat (length (filter (\<lambda>v. PkgID v = p \<and> vuln_Severity v = s) vulns))))
              (filter (\<lambda>s. s \<in> Severity_String ` set (Severities tw)) SeverityNames)) '', '' @
        '')'')"
proof -
  have "get_count (pkg_counts (count_packages vulns Map.empty) p) s =
      of_nat (length (filter (\<lambda>v. PkgID v = p \<and> vuln_Severity v = s) vulns))" for s
    by (simp add: count_packages_get) (simp add: pkg_counts_def get_count_def)
  then show ?thesis
    by (simp add: topLvlID_def summary_eq Let_def pkg_counts_def)
qed

lemma finite_ancestor_edges: "finite (ancestor_edges pm p)"
  by (rule finite_subset [OF _ finite_parent_edges [of pm]]) (auto simp: ancestor_edges_def)

lemma addParents_returns_from:
  assumes "wf (ancestor_edges pm p)"
  shows "(q, p) \<in> (parent_edges pm)\<^sup>* \<longrightarrow> (\<exists>fuel. \<forall>topI. \<exists>t. addParents fuel topI q pm = Some t)"
  using assms
proof (induction q rule: wf_induct_rule)
  case (less q)
  show ?case
  proof
    assume qp: "(q, p) \<in> (parent_edges pm)\<^sup>*"
    show "\<exists>fuel. \<forall>topI. \<exists>t. addParents fuel topI q pm = Some t"
    proof (cases "map_of pm q")
      case None
      then have "\<forall>topI. \<exists>t. addParents (Suc 0) topI q pm = Some t"
        unfolding addParents_Some_iff by blast
      then show ?thesis ..
    next
      case (Some ps)
      have "\<forall>q'\<in>set ps. \<exists>n. \<forall>topI. \<exists>t. addParents n topI q' pm = Some t"
      proof
        fix q' assume "q' \<in> set ps"
        with Some have e: "(q', q) \<in> parent_edges pm"
          by (auto simp: parent_edges_def)
        with qp have "(q', q) \<in> ancestor_edges pm p"
          by (simp add: ancestor_edges_def)
        moreover from e qp have "(q', p) \<in> (parent_edges pm)\<^sup>*"
          by (rule converse_rtrancl_into_rtrancl)
        ultimately show "\<exists>n. \<forall>topI. \<exists>t. addParents n topI q' pm = Some t"
          using less.IH by blast
      qed
      then obtain f where f: "\<forall>q'\<in>set ps. \<forall>topI. \<exists>t. addParents (f q') topI q' pm = Some t"
        by metis
      define N where "N = sum_list (map f ps)"
      have ret: "\<exists>b. addParents N (Node q' []) q' pm = Some b" if "q' \<in> set ps" for q'
      proof -
        from f that obtain b where "addParents (f q') (Node q' []) q' pm = Some b" by blast
        moreover have "f q' \<le> N"
          unfolding N_def using that by (simp add: member_le_sum_list)
        ultimately have "addParents N (Node q' []) q' pm = Some b"
          by (rule addParents_mono_le)
        then show ?thesis ..
      qed
      have "None \<notin> set (map (\<lambda>q'. addParents N (Node q' []) q' pm) ps)"
        using ret by force
      then have "those (map (\<lambda>q'. addParents N (Node q' []) q' pm) ps) \<noteq> None"
        by (simp only: those_eq_None not_False_eq_True)
      then obtain bs where "those (map (\<lambda>q'. addParents N (Node q' []) q' pm) ps) = Some bs"
        by blast
      with Some have "\<forall>topI. \<exists>t. addParents (Suc N) topI q pm = Some t"
        by simp
      then show ?thesis ..
    qed
  qed
qed

lemma addParents_returns_acyclic:
  assumes "acyclic (ancestor_edges pm p)"
  shows "\<exists>fuel. \<forall>topI. \<exists>t. addParents fuel topI p pm = Some t"
proof -
  have "wf (ancestor_edges pm p)"
    using finite_ancestor_edges assms by (rule finite_acyclic_wf)
  from addParents_returns_from [OF this, of p] show ?thesis by simp
qed

lemma render_tree_mono:
  "render_tree fuel tw psc pm vs seen root = Some t \<Longrightarrow> fuel \<le> fuel' \<Longrightarrow>
   render_tree fuel' tw psc pm vs seen root = Some t"
proof (induction vs arbitrary: seen root)
  case Nil
  then show ?case by simp
next
  case (Cons v vs)
  show ?case
  proof (cases "PkgID v \<in> set seen")
    case True
    with Cons show ?thesis by simp
  next
    case False
    with Cons.prems(1) obtain b where
      b: "addParents fuel (Node (topLvlID tw psc (PkgID v)) []) (PkgID v) pm = Some b"
      and r: "render_tree fuel tw psc pm vs (PkgID v # seen) (AddBranch root b) = Some t"
      by (auto split: option.splits)
    from b Cons.prems(2)
    have "addParents fuel' (Node (topLvlID tw psc (PkgID v)) []) (PkgID v) pm = Some b"
      by (rule addParents_mono_le)
    with False Cons.IH [OF r Cons.prems(2)] show ?thesis by simp
  qed
qed

lemma render_tree_returns:
  "\<forall>v\<in>set vs. \<forall>topI. \<exists>b. addParents fuel topI (PkgID v) pm = Some b \<Longrightarrow>
   \<exists>t. render_tree fuel tw psc pm vs seen root = Some t"
proof (induction vs arbitrary: seen root)
  case Nil
  show ?case by simp
next
  case (Cons v vs)
  from Cons.prems obtain b where
    b: "addParents fuel (Node (topLvlID tw psc (PkgID v)) []) (PkgID v) pm = Some b"
    by (meson list.set_intros(1))
  from Cons.prems have "\<forall>v\<in>set vs. \<forall>topI. \<exists>b. addParents fuel topI (PkgID v) pm = Some b"
    by simp
  from Cons.IH [OF this] b show ?case by simp
qed

lemma render_tree_total:
  assumes "list_all (\<lambda>v. acyclic (ancestor_edges pm (PkgID v))) vs"
  shows "\<exists>fuel t. \<forall>fuel'\<ge>fuel. render_tree fuel' tw psc pm vs seen root = Some t"
proof -
  have "\<forall>v\<in>set vs. \<exists>n. \<forall>topI. \<exists>b. addParents n topI (PkgID v) pm = Some b"
    using assms addParents_returns_acyclic by (auto simp: list_all_iff)
  then obtain f where f: "\<forall>v\<in>set vs. \<forall>topI. \<exists>b. addParents (f v) topI (PkgID v) pm = Some b"
    by metis
  define N where "N = sum_list (map f vs)"
  have "\<forall>v\<in>set vs. \<forall>topI. \<exists>b. addParents N topI (PkgID v) pm = Some b"
  proof (intro ballI allI)
    fix v topI assume v: "v \<in> set vs"
    with f obtain b where "addParents (f v) topI (PkgID v) pm = Some b" by blast
    moreover have "f v \<le> N"
      unfolding N_def using v by (simp add: member_le_sum_list)
    ultimately have "addParents N topI (PkgID v) pm = Some b"
      by (rule addParents_mono_le)
    then show "\<exists>b. addParents N topI (PkgID v) pm = Some b" ..
  qed
  from render_tree_returns [OF this] obtain t
    where "render_tree N tw psc pm vs seen root = Some t" by blast
  then have "\<forall>fuel'\<ge>N. render_tree fuel' tw psc pm vs seen root = Some t"
    by (blast intro: render_tree_mono)
  then show ?thesis by blast
qed

lemma reverseDeps_cyclic_result:
  "reverseDeps (Packages cyclic_result) = cyclic_parents"
  by (simp add: cyclic_result_def reverseDeps_cyclic_packages cyclic_parents_def)

text \<open>
  C7, as stated, fails where the walk of a vulnerable package meets a cycle.  For the
  packages A, B, C where A depends on B, B on C and C on A, and one vulnerability of A,
  \<^verbatim>\<open>renderDependencyTree\<close> returns for no amount of fuel: no entry is produced for A.
\<close>

theorem renderDependencyTree_cycle_counterexample:
  "\<not> (\<exists>fuel r. renderDependencyTree fuel ex_tw cyclic_result = Some r)"
proof -
  have "length cyclic_parents \<noteq> 0"
    by (simp add: cyclic_parents_def)
  moreover have "result_Vulnerabilities cyclic_result =
      [\<lparr>VulnerabilityID = ''CVE-1'', PkgID = ''A'', vuln_Severity = ''HIGH''\<rparr>]"
    by (simp add: cyclic_result_def)
  ultimately show ?thesis
    using addParents_cyclic
    by (simp add: renderDependencyTree_def reverseDeps_cyclic_result Let_def)
qed

text \<open>
  C7, amended.  \<^verbatim>\<open>renderDependencyTree\<close> returns, with the same outcome for every
  larger amount of fuel, whenever no vulnerable package has a cycle among its ancestors.
  It returns with nothing printed exactly when no package has a parent.  Whenever it
  prints a tree, the branches below the root are, in order, one per distinct package
  identifier of the vulnerabilities (first occurrences).  The label of the branch of
  package \<open>p\<close> is \<open>p\<close>, a comma and, in parentheses, the summary of the counts of all
  vulnerabilities of \<open>p\<close>: for each allow-listed severity name its number among the
  vulnerabilities whose package is \<open>p\<close> (in bright red on a terminal).
\<close>

theorem renderDependencyTree_top_level:
  "(list_all (\<lambda>v. acyclic (ancestor_edges (reverseDeps (Packages result)) (PkgID v)))
      (result_Vulnerabilities result) \<longrightarrow>
    (\<exists>fuel r. \<forall>fuel'\<ge>fuel. renderDependencyTree fuel' tw result = Some r)) \<and>
   (renderDependencyTree fuel tw result = Some None \<longleftrightarrow> reverseDeps (Packages result) = []) \<and>
   (\<forall>t. renderDependencyTree fuel tw result = Some (Some t) \<longrightarrow>
      label t = tree_header (Target result) \<and>
      map label (branches t) =
        map (topLvlID tw (count_packages (result_Vulnerabilities result) Map.empty))
          (Uniq (map PkgID (result_Vulnerabilities result)))) \<and>
   distinct (Uniq (map PkgID (result_Vulnerabilities result))) \<and>
   set (Uniq (map PkgID (result_Vulnerabilities result))) =
     PkgID ` set (result_Vulnerabilities result) \<and>
   topLvlID tw (count_packages (result_Vulnerabilities result) Map.empty) p =
     (if Output_isTerminal tw then HiRedString else id)
       (p @ '', ('' @
        Join (map (\<lambda>s. s @ '': '' @
                Sprint_d (of_nat (length (filter (\<lambda>v. PkgID v = p \<and> vuln_Severity v = s)
                   (result_Vulnerabilities result)))))
              (filter (\<lambda>s. s \<in> Severity_String ` set (Severities tw)) SeverityNames)) '', '' @
        '')'')"
proof -
  let ?vs = "result_Vulnerabilities result"
  let ?pm = "reverseDeps (Packages result)"
  let ?psc = "count_packages ?vs Map.empty"
  let ?root = "Node (tree_header (Target result)) []"
  have total: "\<exists>fuel r. \<forall>fuel'\<ge>fuel. renderDependencyTree fuel' tw result = Some r"
    if a: "list_all (\<lambda>v. acyclic (ancestor_edges ?pm (PkgID v))) ?vs"
  proof (cases "?pm = []")
    case True
    then have "\<forall>fuel'\<ge>0. renderDependencyTree fuel' tw result = Some None"
      by (simp add: renderDependencyTree_def)
    then show ?thesis by blast
  next
    case False
    from render_tree_total [OF a, of tw ?psc "[]" ?root] obtain fuel t
      where "\<forall>fuel'\<ge>fuel. render_tree fuel' tw ?psc ?pm ?vs [] ?root = Some t" by blast
    with False have "\<forall>fuel'\<ge>fuel. renderDependencyTree fuel' tw result = Some (Some t)"
      by (simp add: renderDependencyTree_def Let_def)
    then show ?thesis by blast
  qed
  have early: "renderDependencyTree fuel tw result = Some None \<longleftrightarrow> ?pm = []"
    by (auto simp: renderDependencyTree_def Let_def)
  have tree: "label t = tree_header (Target result) \<and>
      map label (branches t) = map (topLvlID tw ?psc) (Uniq (map PkgID ?vs))"
    if "renderDependencyTree fuel tw result = Some (Some t)" for t
  proof -
    from that have r: "render_tree fuel tw ?psc ?pm ?vs [] ?root = Some t"
      by (auto simp: renderDependencyTree_def Let_def split: if_splits)
    from render_tree_branches [OF r] obtain bs where "t = Node (tree_header (Target result)) bs"
      and "map label bs = map (topLvlID tw ?psc) (Uniq_loop (map PkgID ?vs) [] [])" by auto
    then show ?thesis by (simp add: Uniq_def)
  qed
  have d: "distinct (Uniq (map PkgID ?vs))"
    by (simp add: Uniq_def distinct_Uniq_loop)
  have s: "set (Uniq (map PkgID ?vs)) = PkgID ` set ?vs"
    by (simp add: Uniq_def set_Uniq_loop)
  from total early tree d s topLvlID_eq [of tw ?vs p] show ?thesis
    by blast
qed

lemma ex_render: "renderDependencyTree 3 ex_tw ex_result =
     Some (Some (Node (tree_header ''go.mod'')
       [Node ''base, (HIGH: 1, CRITICAL: 1)'' [Node ''app'' [], Node ''lib'' [Node ''app'' []]],
        Node ''lib, (HIGH: 1, CRITICAL: 0)'' [Node ''app'' []]]))"
  by (simp add: renderDependencyTree_def ex_result_def reverseDeps_dag_packages ex_vulns_def numeral_3_eq_3
      topLvlID_def ex_tw_def summary_def SeverityNames_def get_count_def incr_def
      Sprint_d_def show_nat.simps Let_def)

lemma acyclic_ancestors_dag: "acyclic (ancestor_edges (reverseDeps dag_packages) p)"
  by (rule acyclic_subset [OF acyclic_dag]) (auto simp: ancestor_edges_def)

theorem renderDependencyTree_top_level_witness:
  "list_all (\<lambda>v. acyclic (ancestor_edges (reverseDeps (Packages ex_result)) (PkgID v)))
      (result_Vulnerabilities ex_result) \<and>
   (\<exists>fuel r. \<forall>fuel'\<ge>fuel. renderDependencyTree fuel' ex_tw ex_result = Some r) \<and>
   renderDependencyTree 3 ex_tw ex_result =
     Some (Some (Node (tree_header ''go.mod'')
       [Node ''base, (HIGH: 1, CRITICAL: 1)'' [Node ''app'' [], Node ''lib'' [Node ''app'' []]],
        Node ''lib, (HIGH: 1, CRITICAL: 0)'' [Node ''app'' []]])) \<and>
   Uniq (map PkgID (result_Vulnerabilities ex_result)) = [''base'', ''lib''] \<and>
   map label (branches (Node (tree_header ''go.mod'')
       [Node ''base, (HIGH: 1, CRITICAL: 1)'' [Node ''app'' [], Node ''lib'' [Node ''app'' []]],
        Node ''lib, (HIGH: 1, CRITICAL: 0)'' [Node ''app'' []]])) =
     map (topLvlID ex_tw (count_packages (result_Vulnerabilities ex_result) Map.empty))
       (Uniq (map PkgID (result_Vulnerabilities ex_result)))"
proof -
  have h: "list_all (\<lambda>v. acyclic (ancestor_edges (reverseDeps (Packages ex_result)) (PkgID v)))
      (result_Vulnerabilities ex_result)"
    by (simp add: list_all_iff ex_result_def acyclic_ancestors_dag)
  have u: "Uniq (map PkgID (result_Vulnerabilities ex_result)) = [''base'', ''lib'']"
    by (simp add: ex_result_def ex_vulns_def Uniq_def)
  from renderDependencyTree_top_level [of ex_result ex_tw 3] h ex_render u show ?thesis
    by simp
qed

section \<open>Facts about the RPC client\<close>

lemma Scan_call_Inl:
  "client s (length (sent st)) ctx req = Inl e \<Longrightarrow>
   Scan_call s ctx req st = (Some e, \<lparr>res = None, sent = sent st @ [(ctx, req)]\<rparr>)"
  by (simp add: Scan_call_def)

lemma Scan_call_Inr:
  "client s (length (sent st)) ctx req = Inr r \<Longrightarrow>
   Scan_call s ctx req st = (None, \<lparr>res = Some r, sent = sent st @ [(ctx, req)]\<rparr>)"
  by (simp add: Scan_call_def)

lemma Retry_Scan_call:
  "Retry tr k (Scan_call s ctx req) st = (err, st') \<Longrightarrow>
   \<exists>m. 1 \<le> m \<and> m \<le> Suc k \<and> sent st' = sent st @ replicate m (ctx, req) \<and>
     (case err of
        Some e \<Rightarrow> client s (length (sent st') - 1) ctx req = Inl e
      | None \<Rightarrow> \<exists>response. res st' = Some response \<and>
          client s (length (sent st') - 1) ctx req = Inr response)"
proof (induction k arbitrary: st)
  case 0
  then have "sent st' = sent st @ replicate 1 (ctx, req) \<and>
     (case err of
        Some e \<Rightarrow> client s (length (sent st') - 1) ctx req = Inl e
      | None \<Rightarrow> \<exists>response. res st' = Some response \<and>
          client s (length (sent st') - 1) ctx req = Inr response)"
    by (cases "client s (length (sent st)) ctx req")
      (auto simp: Scan_call_Inl Scan_call_Inr)
  then show ?case by (intro exI [of _ 1]) simp
next
  case (Suc k)
  show ?case
  proof (cases "client s (length (sent st)) ctx req")
    case (Inr response)
    with Suc.prems have "sent st' = sent st @ replicate 1 (ctx, req) \<and>
     (case err of
        Some e \<Rightarrow> client s (length (sent st') - 1) ctx req = Inl e
      | None \<Rightarrow> \<exists>response. res st' = Some response \<and>
          client s (length (sent st') - 1) ctx req = Inr response)"
      by (auto simp: Scan_call_Inr)
    then show ?thesis by (intro exI [of _ 1]) simp
  next
    case (Inl e)
    show ?thesis
    proof (cases "tr e")
      case False
      with Inl Suc.prems have "sent st' = sent st @ replicate 1 (ctx, req) \<and>
       (case err of
          Some e \<Rightarrow> client s (length (sent st') - 1) ctx req = Inl e
        | None \<Rightarrow> \<exists>response. res st' = Some response \<and>
            client s (length (sent st') - 1) ctx req = Inr response)"
        by (auto simp: Scan_call_Inl)
      then show ?thesis by (intro exI [of _ 1]) simp
    next
      case True
      let ?st1 = "\<lparr>res = None, sent = sent st @ [(ctx, req)]\<rparr> :: ('a, 'b) scan_state"
      from True Inl Suc.prems have "Retry tr k (Scan_call s ctx req) ?st1 = (err, st')"
        by (simp add: Scan_call_Inl)
      from Suc.IH [OF this] obtain m where m: "1 \<le> m" "m \<le> Suc k"
        "sent st' = sent ?st1 @ replicate m (ctx, req)"
        and c: "(case err of
          Some e \<Rightarrow> client s (length (sent st') - 1) ctx req = Inl e
        | None \<Rightarrow> \<exists>response. res st' = Some response \<and>
            client s (length (sent st') - 1) ctx req = Inr response)"
        by blast
      from m(3) have "sent st' = sent st @ replicate (Suc m) (ctx, req)"
        by (simp add: replicate_app_Cons_same)
      with m(1,2) c show ?thesis
        by (intro exI [of _ "Suc m"]) simp
    qed
  qed
qed

text \<open>
  C8.  \<^verbatim>\<open>Scan\<close> sends between one and \<open>maxRetries + 1\<close> requests, all equal: the
  target in \<open>Target\<close>, the artifact key in \<open>ArtifactId\<close>, the blob keys in their order
  in \<open>BlobIds\<close>, and the options copied field by field, under the caller's headers.
  The outcome of the last call decides the result.  When the last call failed with the
  error \<open>e\<close>, \<^verbatim>\<open>Scan\<close> returns nil, nil and the error \<open>e\<close> wrapped with the context
  \<^verbatim>\<open>failed to detect vulnerabilities via RPC\<close>; when it answered, \<^verbatim>\<open>Scan\<close> returns
  the converted results and operating system of the response and no error.  In
  particular it never reads a nil response.
\<close>

theorem Scan_request_and_failure:
  "\<exists>n. 1 \<le> n \<and> n \<le> Suc (maxRetries r) \<and>
     snd (Scan r s target artifactKey blobKeys options) =
       replicate n
         (WithCustomHeaders (customHeaders s),
          \<lparr>req_Target = target, ArtifactId = artifactKey, BlobIds = blobKeys,
           Options = \<lparr>rpc_VulnType = VulnType options,
             rpc_SecurityChecks = SecurityChecks options,
             rpc_ListAllPackages = ListAllPackages options\<rparr>\<rparr>) \<and>
     fst (Scan r s target artifactKey blobKeys options) =
       (case client s (n - 1) (WithCustomHeaders (customHeaders s))
               \<lparr>req_Target = target, ArtifactId = artifactKey, BlobIds = blobKeys,
                Options = \<lparr>rpc_VulnType = VulnType options,
                  rpc_SecurityChecks = SecurityChecks options,
                  rpc_ListAllPackages = ListAllPackages options\<rparr>\<rparr> of
          Inl e \<Rightarrow>
            Inr (None, None, Some (Wrapped ''failed to detect vulnerabilities via RPC'' e))
        | Inr response \<Rightarrow>
            Inr (ConvertFromRPCResults r (resp_Results response),
                 ConvertFromRPCOS r (Os response), None))"
proof -
  let ?ctx = "WithCustomHeaders (customHeaders s)"
  let ?req = "\<lparr>req_Target = target, ArtifactId = artifactKey, BlobIds = blobKeys,
           Options = \<lparr>rpc_VulnType = VulnType options,
             rpc_SecurityChecks = SecurityChecks options,
             rpc_ListAllPackages = ListAllPackages options\<rparr>\<rparr>"
  let ?st0 = "\<lparr>res = None, sent = []\<rparr> :: ('a, 'b) scan_state"
  obtain err st where R: "Retry (transient r) (maxRetries r) (Scan_call s ?ctx ?req) ?st0 = (err, st)"
    by (cases "Retry (transient r) (maxRetries r) (Scan_call s ?ctx ?req) ?st0")
  from Retry_Scan_call [OF R] obtain m where m: "1 \<le> m" "m \<le> Suc (maxRetries r)"
    and snt: "sent st = replicate m (?ctx, ?req)"
    and c: "(case err of
          Some e \<Rightarrow> client s (length (sent st) - 1) ?ctx ?req = Inl e
        | None \<Rightarrow> \<exists>response. res st = Some response \<and>
            client s (length (sent st) - 1) ?ctx ?req = Inr response)"
    by auto
  have S: "Scan r s target artifactKey blobKeys options =
      (case err of
           Some e \<Rightarrow>
             (Inr (None, None, Some (Wrapped ''failed to detect vulnerabilities via RPC'' e)),
              sent st)
         | None \<Rightarrow>
             (case res st of
                None \<Rightarrow> (Inl NilPointerDereference, sent st)
              | Some response \<Rightarrow>
                  (Inr (ConvertFromRPCResults r (resp_Results response),
                        ConvertFromRPCOS r (Os response), None),
                   sent st)))"
    by (simp add: Scan_def Let_def R)
  show ?thesis
  proof (intro exI [of _ m] conjI m)
    show "snd (Scan r s target artifactKey blobKeys options) = replicate m (?ctx, ?req)"
      using S snt c by (auto split: option.splits)
    show "fst (Scan r s target artifactKey blobKeys options) =
       (case client s (m - 1) ?ctx ?req of
          Inl e \<Rightarrow>
            Inr (None, None, Some (Wrapped ''failed to detect vulnerabilities via RPC'' e))
        | Inr response \<Rightarrow>
            Inr (ConvertFromRPCResults r (resp_Results response),
                 ConvertFromRPCOS r (Os response), None))"
      using S snt c by (auto split: option.splits)
  qed
qed

lemma ex_Scan: "Scan ex_rpc ex_scanner ''alpine:3.10'' ''sha256:a'' [''sha256:b'', ''sha256:c''] ex_options =
   (Inr (None, None,
      Some (Wrapped ''failed to detect vulnerabilities via RPC'' (Err ''unavailable''))),
    replicate 3 ([(''Trivy-Token'', [''secret''])],
      \<lparr>req_Target = ''alpine:3.10'', ArtifactId = ''sha256:a'',
       BlobIds = [''sha256:b'', ''sha256:c''],
       Options = \<lparr>rpc_VulnType = [''os'', ''library''], rpc_SecurityChecks = [''vuln''],
         rpc_ListAllPackages = True\<rparr>\<rparr>))"
  by (simp add: Scan_def ex_rpc_def ex_scanner_def ex_options_def WithCustomHeaders_def
      Scan_call_def numeral_2_eq_2 numeral_3_eq_3 Let_def)

theorem Scan_request_and_failure_witness:
  "Scan ex_rpc ex_scanner ''alpine:3.10'' ''sha256:a'' [''sha256:b'', ''sha256:c''] ex_options =
     (Inr (None, None,
        Some (Wrapped ''failed to detect vulnerabilities via RPC'' (Err ''unavailable''))),
      replicate 3 ([(''Trivy-Token'', [''secret''])],
        \<lparr>req_Target = ''alpine:3.10'', ArtifactId = ''sha256:a'',
         BlobIds = [''sha256:b'', ''sha256:c''],
         Options = \<lparr>rpc_VulnType = [''os'', ''library''], rpc_SecurityChecks = [''vuln''],
           rpc_ListAllPackages = True\<rparr>\<rparr>)) \<and>
   (\<exists>n. 1 \<le> n \<and> n \<le> Suc (maxRetries ex_rpc) \<and>
      snd (Scan ex_rpc ex_scanner ''alpine:3.10'' ''sha256:a'' [''sha256:b'', ''sha256:c'']
             ex_options) =
        replicate n
          (WithCustomHeaders (customHeaders ex_scanner),
           \<lparr>req_Target = ''alpine:3.10'', ArtifactId = ''sha256:a'',
            BlobIds = [''sha256:b'', ''sha256:c''],
            Options = \<lparr>rpc_VulnType = VulnType ex_options,
              rpc_SecurityChecks = SecurityChecks ex_options,
              rpc_ListAllPackages = ListAllPackages ex_options\<rparr>\<rparr>) \<and>
      fst (Scan ex_rpc ex_scanner ''alpine:3.10'' ''sha256:a'' [''sha256:b'', ''sha256:c'']
             ex_options) =
        Inr (None, None,
          Some (Wrapped ''failed to detect vulnerabilities via RPC'' (Err ''unavailable''))))"
proof -
  have c: "client ex_scanner k ctx req = Inl (Err ''unavailable'')" for k ctx req
    by (simp add: ex_scanner_def)
  from Scan_request_and_failure
    [of ex_rpc ex_scanner "''alpine:3.10''" "''sha256:a''" "[''sha256:b'', ''sha256:c'']"
      ex_options]
  have "\<exists>n. 1 \<le> n \<and> n \<le> Suc (maxRetries ex_rpc) \<and>
      snd (Scan ex_rpc ex_scanner ''alpine:3.10'' ''sha256:a'' [''sha256:b'', ''sha256:c'']
             ex_options) =
        replicate n
          (WithCustomHeaders (customHeaders ex_scanner),
           \<lparr>req_Target = ''alpine:3.10'', ArtifactId = ''sha256:a'',
            BlobIds = [''sha256:b'', ''sha256:c''],
            Options = \<lparr>rpc_VulnType = VulnType ex_options,
              rpc_SecurityChecks = SecurityChecks ex_options,
              rpc_ListAllPackages = ListAllPackages ex_options\<rparr>\<rparr>) \<and>
      fst (Scan ex_rpc ex_scanner ''alpine:3.10'' ''sha256:a'' [''sha256:b'', ''sha256:c'']
             ex_options) =
        Inr (None, None,
          Some (Wrapped ''failed to detect vulnerabilities via RPC'' (Err ''unavailable'')))"
    by (simp only: c sum.case)
  with ex_Scan show ?thesis by blast
qed

end
